theory Spec2Isabelle
  imports Main
begin

text \<open>
  The ledger reconciliation of the contribution statistics: the on-disk ledger of one
  record per repository (\<^verbatim>\<open>github_stats/cache/manager.py\<close>), the paginated walk over
  a repository's history (\<^verbatim>\<open>github_stats/api/repo_processing.py\<close>), the recovery when
  the remote fails during a walk, and the merge of the archive. The Python functions are
  embedded as functions on an explicit world (files, remote, query log); exceptions are
  values. Not modelled: the directory of the ledger (the constructor creates it), input and
  output errors other than a missing file, what the functions print, and the interpreter's
  recursion limit.
\<close>

section \<open>Text: lines, whitespace-separated fields, integers\<close>

text \<open>
  The ledger is a text file. Its content is a \<^typ>\<open>string\<close>; what Python's
  \<^verbatim>\<open>f.readlines()\<close> returns is the list of its lines, each with its terminating
  newline (the last line may lack one), and \<^verbatim>\<open>f.writelines(xs)\<close> writes the
  concatenation of \<open>xs\<close>. The text is taken to be ASCII with \<^verbatim>\<open>\n\<close> line ends
  (Python's translation of \<^verbatim>\<open>\r\<close> and its decoding of UTF-8 are not modelled).
\<close>

definition newline :: char where
  "newline = CHR 0x0A"

fun readlines :: "string \<Rightarrow> string list" where
  "readlines [] = []"
| "readlines (c # cs) =
     (if c = newline then [c] # readlines cs
      else (case readlines cs of [] \<Rightarrow> [[c]] | l # ls \<Rightarrow> (c # l) # ls))"

text \<open>\<^verbatim>\<open>str.split()\<close> with no argument: the maximal runs of non-whitespace characters.\<close>

definition is_space :: "char \<Rightarrow> bool" where
  "is_space c \<longleftrightarrow> c \<in> set [CHR '' '', CHR 0x09, CHR 0x0A, CHR 0x0B, CHR 0x0C, CHR 0x0D,
                             CHR 0x1C, CHR 0x1D, CHR 0x1E, CHR 0x1F]"

fun py_split :: "string \<Rightarrow> string list" where
  "py_split [] = []"
| "py_split (c # cs) =
     (if is_space c then py_split cs
      else (case cs of
              [] \<Rightarrow> [[c]]
            | d # ds \<Rightarrow>
                if is_space d then [c] # py_split ds
                else (case py_split cs of [] \<Rightarrow> [[c]] | t # ts \<Rightarrow> (c # t) # ts)))"

text \<open>\<^verbatim>\<open>str.split('/')\<close>: the pieces between the separators, empty pieces included.\<close>

fun split_on :: "char \<Rightarrow> string \<Rightarrow> string list" where
  "split_on sep [] = [[]]"
| "split_on sep (c # cs) =
     (if c = sep then [] # split_on sep cs
      else (case split_on sep cs of [] \<Rightarrow> [[c]] | t # ts \<Rightarrow> (c # t) # ts))"

text \<open>
  \<^verbatim>\<open>int(s)\<close> on a field (which holds no whitespace): an optional sign, then decimal
  digits, where single underscores may stand between digits. \<open>None\<close> is Python's
  \<^verbatim>\<open>ValueError\<close>.
\<close>

definition is_digit :: "char \<Rightarrow> bool" where
  "is_digit c \<longleftrightarrow> (48::nat) \<le> of_char c \<and> (of_char c :: nat) \<le> 57"

definition digit_val :: "char \<Rightarrow> nat" where
  "digit_val c = of_char c - 48"

fun digits_value :: "nat \<Rightarrow> string \<Rightarrow> nat option" where
  "digits_value acc [] = Some acc"
| "digits_value acc (c # cs) =
     (if is_digit c then digits_value (10 * acc + digit_val c) cs
      else if c = CHR ''_'' then
        (case cs of
           [] \<Rightarrow> None
         | d # ds \<Rightarrow> if is_digit d then digits_value (10 * acc + digit_val d) ds else None)
      else None)"

definition nat_of_string :: "string \<Rightarrow> nat option" where
  "nat_of_string s =
     (case s of [] \<Rightarrow> None
      | c # cs \<Rightarrow> if is_digit c then digits_value (digit_val c) cs else None)"

definition py_int :: "string \<Rightarrow> int option" where
  "py_int s =
     (case s of
        [] \<Rightarrow> None
      | c # cs \<Rightarrow>
          if c = CHR ''-'' then map_option (\<lambda>n. - int n) (nat_of_string cs)
          else if c = CHR ''+'' then map_option int (nat_of_string cs)
          else map_option int (nat_of_string s))"

text \<open>\<^verbatim>\<open>str.isdigit()\<close>: non-empty and digits only.\<close>

definition isdigit :: "string \<Rightarrow> bool" where
  "isdigit s \<longleftrightarrow> s \<noteq> [] \<and> list_all is_digit s"

text \<open>\<^verbatim>\<open>str(n)\<close> of an integer, as an f-string renders it.\<close>

definition digit_char :: "nat \<Rightarrow> char" where
  "digit_char n = ''0123456789'' ! n"

function str_nat :: "nat \<Rightarrow> string" where
  "str_nat n = (if n < 10 then [digit_char n] else str_nat (n div 10) @ [digit_char (n mod 10)])"
  by pat_completeness auto
termination
  by (relation "measure id") auto

declare str_nat.simps [simp del]

definition str_int :: "int \<Rightarrow> string" where
  "str_int i = (if i < 0 then CHR ''-'' # str_nat (nat (- i)) else str_nat (nat i))"

text \<open>Python slices \<^verbatim>\<open>xs[:n]\<close> and \<^verbatim>\<open>xs[n:]\<close>; a negative \<open>n\<close> counts from the end.\<close>

definition slice_to :: "'a list \<Rightarrow> int \<Rightarrow> 'a list" where
  "slice_to xs n = (if 0 \<le> n then take (nat n) xs else take (nat (int (length xs) + n)) xs)"

definition slice_from :: "'a list \<Rightarrow> int \<Rightarrow> 'a list" where
  "slice_from xs n = (if 0 \<le> n then drop (nat n) xs else drop (nat (int (length xs) + n)) xs)"

section \<open>Remote data, configuration and the world\<close>

text \<open>
  A repository edge of the listing query (\<^verbatim>\<open>LOC_QUERY\<close>): its qualified name and,
  when it has a default branch, the total commit count of that branch's history
  (\<^verbatim>\<open>defaultBranchRef.target.history.totalCount\<close>). \<open>None\<close> is the JSON \<^verbatim>\<open>null\<close>
  of \<^verbatim>\<open>defaultBranchRef\<close>, on which the subscripting raises \<^verbatim>\<open>TypeError\<close>.
\<close>

record repo_node =
  nameWithOwner :: string
  defaultBranchRef :: "int option"

text \<open>
  A commit of a history page (\<^verbatim>\<open>REPO_LOC_QUERY\<close>). \<open>author\<close> is \<open>None\<close> when
  the commit's \<^verbatim>\<open>author\<close> is \<^verbatim>\<open>null\<close>, \<open>Some None\<close> when the author has no
  \<^verbatim>\<open>user\<close>, and \<open>Some (Some i)\<close> for the user \<^verbatim>\<open>{'id': i}\<close>.
\<close>

record commit_node =
  author :: "string option option"
  additions :: int
  deletions :: int

record history_page =
  edges :: "commit_node list"
  hasNextPage :: bool
  endCursor :: "string option"

text \<open>
  What one call of \<^verbatim>\<open>GitHubClient.execute_query\<close> with \<^verbatim>\<open>REPO_LOC_QUERY\<close> meets
  (\<^verbatim>\<open>api/client.py\<close>, lines 39-59): \<^verbatim>\<open>requests.post\<close> fails to reach the remote and
  raises an exception of its own; the remote answers with a status other than 200; it
  answers 200 with a body that \<^verbatim>\<open>response.json()\<close> cannot decode; or it answers 200
  with a JSON body whose \<^verbatim>\<open>repository\<close> is \<^verbatim>\<open>null\<close>, whose
  \<^verbatim>\<open>defaultBranchRef\<close> is \<^verbatim>\<open>null\<close>, or which holds a page of history.
\<close>

datatype response =
    Transport_Failure
  | Status_Error
  | Undecodable_Body
  | Repository_Null
  | No_Default_Branch
  | History history_page

text \<open>
  Exceptions. \<open>RequestException\<close> is what \<^verbatim>\<open>requests.post\<close> raises
  (\<^verbatim>\<open>requests.exceptions.RequestException\<close> and its subclasses), \<open>JSONDecodeError\<close> what
  \<^verbatim>\<open>response.json()\<close> raises; \<open>APIError\<close> is the exception class of \<^verbatim>\<open>client.py\<close>.
\<close>

datatype error =
    APIError | RequestException | JSONDecodeError
  | TypeError | ValueError | IndexError | FileNotFoundError

text \<open>\<^verbatim>\<open>config\<close>: the tracked account's name and its identity, resolved once per run.\<close>

record config =
  user_name :: string
  owner_id :: "string option"

text \<open>The variables of one \<^verbatim>\<open>recursive_loc\<close> query.\<close>

record query_vars =
  q_owner :: string
  q_repo_name :: string
  q_cursor :: "string option"

text \<open>
  The world the code acts on: the files by path, the responses the remote will give to the
  queries still to come, in order, and the log of the queries made so far (its length is
  \<^verbatim>\<open>config.query_count['recursive_loc']\<close>). The code's behaviour depends on the remote
  only through the responses it receives, so a list of responses stands for any remote.
\<close>

record world =
  files :: "string \<Rightarrow> string option"
  remote :: "response list"
  queries :: "query_vars list"

text \<open>
  The outcome of a call: it returns a value, raises an exception, or, in the model only,
  asks the remote for more responses than were provided (\<open>Starved\<close>).
\<close>

datatype 'a outcome = Returned 'a world | Raised error world | Starved

definition write_file :: "string \<Rightarrow> string list \<Rightarrow> world \<Rightarrow> world" where
  "write_file path ls w = w\<lparr>files := (files w)(path \<mapsto> concat ls)\<rparr>"

text \<open>
  \<^verbatim>\<open>execute_query\<close>: the query is counted, then posted. Only a status other than 200
  becomes an \<^verbatim>\<open>APIError\<close>; what \<^verbatim>\<open>requests.post\<close> and \<^verbatim>\<open>response.json()\<close> raise
  leaves the function as it is.
\<close>

definition execute_query :: "query_vars \<Rightarrow> world \<Rightarrow> response outcome" where
  "execute_query vars w =
     (case remote w of
        [] \<Rightarrow> Starved
      | r # rs \<Rightarrow>
          (let w' = w\<lparr>remote := rs, queries := queries w @ [vars]\<rparr>
           in if r = Transport_Failure then Raised RequestException w'
              else if r = Status_Error then Raised APIError w'
              else if r = Undecodable_Body then Raised JSONDecodeError w'
              else Returned r w'))"

section \<open>The ledger file and failure recovery (\<^verbatim>\<open>cache/manager.py\<close>)\<close>

text \<open>
  \<^verbatim>\<open>hashlib.sha256(...).hexdigest()\<close> is a parameter \<open>H\<close> of every function that
  uses it. \<^verbatim>\<open>os.path.join('cache', name)\<close> is \<^verbatim>\<open>cache/name\<close>.
\<close>

record cache_manager =
  mgr_user_name :: string
  cache_dir :: string
  cache_file :: string

definition get_cache_filename :: "(string \<Rightarrow> string) \<Rightarrow> string \<Rightarrow> string \<Rightarrow> string" where
  "get_cache_filename H dir user = dir @ ''/'' @ H user @ ''.txt''"

definition CacheManager :: "(string \<Rightarrow> string) \<Rightarrow> string \<Rightarrow> cache_manager" where
  "CacheManager H user =
     \<lparr>mgr_user_name = user, cache_dir = ''cache'',
      cache_file = get_cache_filename H ''cache'' user\<rparr>"

text \<open>
  \<^verbatim>\<open>force_close_file\<close> (lines 175-191) computes the path from \<^verbatim>\<open>config.user_name\<close>
  and overwrites that file with the comment lines followed by the data lines. (The notice it
  prints is not modelled.)
\<close>

definition force_close_file ::
  "(string \<Rightarrow> string) \<Rightarrow> config \<Rightarrow> string list \<Rightarrow> string list \<Rightarrow> world \<Rightarrow> world" where
  "force_close_file H cfg data cache_comment w =
     write_file (get_cache_filename H ''cache'' (user_name cfg)) (cache_comment @ data) w"

section \<open>The history walk (\<^verbatim>\<open>api/repo_processing.py\<close>)\<close>

text \<open>
  The loop over \<^verbatim>\<open>history['edges']\<close> (lines 47-51), with \<open>oid\<close> for
  \<^verbatim>\<open>config.owner_id\<close>. Subscripting a \<^verbatim>\<open>null\<close> author raises \<^verbatim>\<open>TypeError\<close>.
\<close>

fun count_commits ::
  "string option \<Rightarrow> commit_node list \<Rightarrow> int \<times> int \<times> int \<Rightarrow> error + int \<times> int \<times> int" where
  "count_commits oid [] totals = Inr totals"
| "count_commits oid (node # nodes) (addition_total, deletion_total, my_commits) =
     (case author node of
        None \<Rightarrow> Inl TypeError
      | Some user \<Rightarrow>
          if user = oid
          then count_commits oid nodes
                 (addition_total + additions node, deletion_total + deletions node, my_commits + 1)
          else count_commits oid nodes (addition_total, deletion_total, my_commits))"

text \<open>The handler \<^verbatim>\<open>except APIError as e\<close> (lines 67-73): save, then raise again.\<close>

definition except_APIError ::
  "(string \<Rightarrow> string) \<Rightarrow> config \<Rightarrow> string list \<Rightarrow> string list \<Rightarrow> 'a outcome \<Rightarrow> 'a outcome" where
  "except_APIError H cfg data cache_comment r =
     (case r of
        Raised e w \<Rightarrow>
          if e = APIError then Raised e (force_close_file H cfg data cache_comment w)
          else Raised e w
      | _ \<Rightarrow> r)"

text \<open>
  \<^verbatim>\<open>process_loc_for_repo\<close> (lines 8-73). The whole body is inside the \<^verbatim>\<open>try\<close>, the
  recursive call included, so a failure of a later page passes through the handler of
  every earlier call. The three accumulator arguments are the triple \<open>totals\<close>
  (additions, deletions, commit count). \<^verbatim>\<open>execute_query\<close> raises for the first three
  kinds of response and never returns them, so their cases are there for completeness only.
\<close>

function process_loc_for_repo ::
  "(string \<Rightarrow> string) \<Rightarrow> config \<Rightarrow> string \<Rightarrow> string \<Rightarrow> string list \<Rightarrow> string list \<Rightarrow>
   string option \<Rightarrow> int \<times> int \<times> int \<Rightarrow> world \<Rightarrow> (int \<times> int \<times> int) outcome" where
  "process_loc_for_repo H cfg owner repo_name data cache_comment cursor totals w =
     except_APIError H cfg data cache_comment
       (case execute_query \<lparr>q_owner = owner, q_repo_name = repo_name, q_cursor = cursor\<rparr> w of
          Starved \<Rightarrow> Starved
        | Raised e w1 \<Rightarrow> Raised e w1
        | Returned resp w1 \<Rightarrow>
            (case resp of
               Transport_Failure \<Rightarrow> Raised RequestException w1
             | Status_Error \<Rightarrow> Raised APIError w1
             | Undecodable_Body \<Rightarrow> Raised JSONDecodeError w1
             | Repository_Null \<Rightarrow> Raised TypeError w1
             | No_Default_Branch \<Rightarrow> Returned totals w1
             | History history \<Rightarrow>
                 (case count_commits (owner_id cfg) (edges history) totals of
                    Inl e \<Rightarrow> Raised e w1
                  | Inr totals' \<Rightarrow>
                      if edges history \<noteq> [] \<and> hasNextPage history
                      then process_loc_for_repo H cfg owner repo_name data cache_comment
                             (endCursor history) totals' w1
                      else Returned totals' w1)))"
  by pat_completeness auto
termination
  by (relation "measure (\<lambda>(H, cfg, owner, repo_name, data, cache_comment, cursor, totals, w).
                  length (remote w))")
     (auto simp: execute_query_def Let_def split: list.splits if_splits)

declare process_loc_for_repo.simps [simp del]

section \<open>Reconciliation (\<^verbatim>\<open>CacheManager.cache_builder\<close>)\<close>

definition comment_line :: string where
  "comment_line = ''This line is a comment block. Write whatever you want here.'' @ [newline]"

definition sentinel_record :: "string \<Rightarrow> string" where
  "sentinel_record repo_hash = repo_hash @ '' 0 0 0 0'' @ [newline]"

text \<open>
  The record written after a walk (line 93):
  \<^verbatim>\<open>f"{repo_hash} {current_commit_count} {loc[2]} {loc[0]} {loc[1]}\n"\<close>, where
  \<open>loc\<close> is (additions, deletions, commit count).
\<close>

definition walked_record :: "string \<Rightarrow> int \<Rightarrow> int \<times> int \<times> int \<Rightarrow> string" where
  "walked_record repo_hash current_commit_count loc =
     (case loc of (addition_total, deletion_total, my_commits) \<Rightarrow>
        repo_hash @ '' '' @ str_int current_commit_count @ '' '' @ str_int my_commits @ '' '' @
        str_int addition_total @ '' '' @ str_int deletion_total @ [newline])"

text \<open>\<^verbatim>\<open>_flush_cache\<close> (lines 110-135).\<close>

definition flush_cache ::
  "(string \<Rightarrow> string) \<Rightarrow> cache_manager \<Rightarrow> repo_node list \<Rightarrow> int \<Rightarrow> world \<Rightarrow> world" where
  "flush_cache H self repos comment_size w =
     (let data =
            (case files w (cache_file self) of
               Some content \<Rightarrow>
                 if comment_size > 0 then slice_to (readlines content) comment_size else []
             | None \<Rightarrow>
                 if comment_size > 0 then replicate (nat comment_size) comment_line else [])
      in write_file (cache_file self)
           (data @ map (\<lambda>node. sentinel_record (H (nameWithOwner node))) repos) w)"

text \<open>
  Lines 55-77 of \<^verbatim>\<open>cache_builder\<close>: read the ledger (creating it when absent), rebuild
  it when the record count differs from the repository count or the rebuild is forced,
  and split what was read into comment lines and record lines. The result is
  (\<open>cached\<close>, \<open>cache_comment\<close>, \<open>data\<close>). Here and below \<open>repos\<close> are the
  \<^verbatim>\<open>['node']\<close> entries of the argument \<^verbatim>\<open>edges\<close>, in its order.
\<close>

definition load_ledger ::
  "(string \<Rightarrow> string) \<Rightarrow> cache_manager \<Rightarrow> repo_node list \<Rightarrow> int \<Rightarrow> bool \<Rightarrow> world \<Rightarrow>
   (bool \<times> string list \<times> string list) outcome" where
  "load_ledger H self repos comment_size force_cache w =
     (let (data, w1) =
            (case files w (cache_file self) of
               Some content \<Rightarrow> (readlines content, w)
             | None \<Rightarrow>
                 (let data = (if comment_size > 0
                              then replicate (nat comment_size) comment_line else [])
                  in (data, write_file (cache_file self) data w)))
      in if int (length data) - comment_size \<noteq> int (length repos) \<or> force_cache
         then (let w2 = flush_cache H self repos comment_size w1
               in case files w2 (cache_file self) of
                    None \<Rightarrow> Raised FileNotFoundError w2
                  | Some content \<Rightarrow>
                      (let data = readlines content
                       in Returned (False, slice_to data comment_size,
                                    slice_from data comment_size) w2))
         else Returned (True, slice_to data comment_size, slice_from data comment_size) w1)"

text \<open>
  The body of the loop over the repositories (lines 81-95) at position \<open>index\<close>, where
  \<open>node\<close> is \<^verbatim>\<open>edges[index]['node']\<close>. The \<^verbatim>\<open>try\<close> holds the read of the live commit
  total, the comparison and the walk; its handler catches \<^verbatim>\<open>TypeError\<close> only.
\<close>

definition reconcile_repo ::
  "(string \<Rightarrow> string) \<Rightarrow> config \<Rightarrow> string list \<Rightarrow> nat \<Rightarrow> repo_node \<Rightarrow> string list \<Rightarrow> world \<Rightarrow>
   string list outcome" where
  "reconcile_repo H cfg cache_comment index node data w =
     (if length data \<le> index then Raised IndexError w
      else case py_split (data ! index) of
        repo_hash # commit_count # _ \<Rightarrow>
          if repo_hash = H (nameWithOwner node) then
            (case defaultBranchRef node of
               None \<Rightarrow> Returned (data[index := sentinel_record repo_hash]) w
             | Some current_commit_count \<Rightarrow>
                 (case py_int commit_count of
                    None \<Rightarrow> Raised ValueError w
                  | Some stored \<Rightarrow>
                      if stored \<noteq> current_commit_count then
                        (case split_on (CHR ''/'') (nameWithOwner node) of
                           [owner, repo_name] \<Rightarrow>
                             (case process_loc_for_repo H cfg owner repo_name data cache_comment
                                     None (0, 0, 0) w of
                                Returned loc w' \<Rightarrow>
                                  Returned (data[index :=
                                    walked_record repo_hash current_commit_count loc]) w'
                              | Raised e w' \<Rightarrow>
                                  if e = TypeError
                                  then Returned (data[index := sentinel_record repo_hash]) w'
                                  else Raised e w'
                              | Starved \<Rightarrow> Starved)
                         | _ \<Rightarrow> Raised ValueError w)
                      else Returned data w))
          else Returned data w
      | _ \<Rightarrow> Raised ValueError w)"

text \<open>The loop \<^verbatim>\<open>for index in range(len(edges))\<close> over the positions still to visit.\<close>

fun reconcile ::
  "(string \<Rightarrow> string) \<Rightarrow> config \<Rightarrow> string list \<Rightarrow> (nat \<times> repo_node) list \<Rightarrow> string list \<Rightarrow>
   world \<Rightarrow> string list outcome" where
  "reconcile H cfg cache_comment [] data w = Returned data w"
| "reconcile H cfg cache_comment ((index, node) # rest) data w =
     (case reconcile_repo H cfg cache_comment index node data w of
        Returned data' w' \<Rightarrow> reconcile H cfg cache_comment rest data' w'
      | Raised e w' \<Rightarrow> Raised e w'
      | Starved \<Rightarrow> Starved)"

text \<open>The totals (lines 103-106): fields 3 and 4 of every record line.\<close>

fun sum_loc :: "string list \<Rightarrow> int \<times> int \<Rightarrow> error + int \<times> int" where
  "sum_loc [] totals = Inr totals"
| "sum_loc (line # rest) (loc_add, loc_del) =
     (let loc = py_split line in
      if length loc \<le> 3 then Inl IndexError
      else case py_int (loc ! 3) of
        None \<Rightarrow> Inl ValueError
      | Some a \<Rightarrow>
          if length loc \<le> 4 then Inl IndexError
          else case py_int (loc ! 4) of
            None \<Rightarrow> Inl ValueError
          | Some d \<Rightarrow> sum_loc rest (loc_add + a, loc_del + d))"

text \<open>
  Lines 79-108 of \<^verbatim>\<open>cache_builder\<close>: the loop over the repositories, the save of
  the ledger and the totals. The result list
  \<^verbatim>\<open>[loc_add, loc_del, loc_add - loc_del, cached]\<close> is a tuple here.
\<close>

definition reconcile_ledger ::
  "(string \<Rightarrow> string) \<Rightarrow> config \<Rightarrow> cache_manager \<Rightarrow> repo_node list \<Rightarrow> int \<Rightarrow> int \<Rightarrow>
   bool \<Rightarrow> string list \<Rightarrow> string list \<Rightarrow> world \<Rightarrow> (int \<times> int \<times> int \<times> bool) outcome" where
  "reconcile_ledger H cfg self repos loc_add loc_del cached cache_comment data w =
     (case reconcile H cfg cache_comment (enumerate 0 repos) data w of
        Starved \<Rightarrow> Starved
      | Raised e w2 \<Rightarrow> Raised e w2
      | Returned data' w2 \<Rightarrow>
          (let w3 = write_file (cache_file self) (cache_comment @ data') w2
           in case sum_loc data' (loc_add, loc_del) of
                Inl e \<Rightarrow> Raised e w3
              | Inr (la, ld) \<Rightarrow> Returned (la, ld, la - ld, cached) w3))"

text \<open>\<^verbatim>\<open>cache_builder\<close> (lines 34-108): the two parts in sequence.\<close>

definition cache_builder ::
  "(string \<Rightarrow> string) \<Rightarrow> config \<Rightarrow> cache_manager \<Rightarrow> repo_node list \<Rightarrow> int \<Rightarrow> bool \<Rightarrow> int \<Rightarrow> int \<Rightarrow>
   world \<Rightarrow> (int \<times> int \<times> int \<times> bool) outcome" where
  "cache_builder H cfg self repos comment_size force_cache loc_add loc_del w =
     (case load_ledger H self repos comment_size force_cache w of
        Starved \<Rightarrow> Starved
      | Raised e w1 \<Rightarrow> Raised e w1
      | Returned (cached, cache_comment, data) w1 \<Rightarrow>
          reconcile_ledger H cfg self repos loc_add loc_del cached cache_comment data w1)"

section \<open>The archive (\<^verbatim>\<open>CacheManager.add_archive\<close>)\<close>

text \<open>The loop over the archived records (lines 155-160).\<close>

fun archive_records :: "string list \<Rightarrow> int \<times> int \<times> int \<Rightarrow> error + int \<times> int \<times> int" where
  "archive_records [] totals = Inr totals"
| "archive_records (line # rest) (added_loc, deleted_loc, added_commits) =
     (case py_split line of
        repo_hash # total_commits # my_commits # loc \<Rightarrow>
          (case loc of
             [] \<Rightarrow> Inl IndexError
           | l0 # loc' \<Rightarrow>
               (case py_int l0 of
                  None \<Rightarrow> Inl ValueError
                | Some a \<Rightarrow>
                    (case loc' of
                       [] \<Rightarrow> Inl IndexError
                     | l1 # _ \<Rightarrow>
                         (case py_int l1 of
                            None \<Rightarrow> Inl ValueError
                          | Some d \<Rightarrow>
                              if isdigit my_commits then
                                (case py_int my_commits of
                                   None \<Rightarrow> Inl ValueError
                                 | Some c \<Rightarrow>
                                     archive_records rest
                                       (added_loc + a, deleted_loc + d, added_commits + c))
                              else archive_records rest
                                     (added_loc + a, deleted_loc + d, added_commits)))))
      | _ \<Rightarrow> Inl ValueError)"

text \<open>Line 163: \<^verbatim>\<open>int(old_data[-1].split()[4][:-1])\<close>.\<close>

definition archive_trailer :: "string list \<Rightarrow> error + int" where
  "archive_trailer old_data =
     (if old_data = [] then Inl IndexError
      else (let fields = py_split (last old_data) in
            if length fields \<le> 4 then Inl IndexError
            else case py_int (butlast (fields ! 4)) of
                   None \<Rightarrow> Inl ValueError
                 | Some n \<Rightarrow> Inr n))"

definition archive_path :: string where
  "archive_path = ''cache/repository_archive.txt''"

text \<open>The body of the \<^verbatim>\<open>try\<close> of \<^verbatim>\<open>add_archive\<close> (lines 146-171).\<close>

definition add_archive_body :: "world \<Rightarrow> error + int \<times> int \<times> int \<times> int \<times> int" where
  "add_archive_body w =
     (case files w archive_path of
        None \<Rightarrow> Inl FileNotFoundError
      | Some content \<Rightarrow>
          (let old_data = readlines content;
               data = take (length old_data - 3 - 7) (drop 7 old_data);
               contributed_repos = int (length data)
           in case archive_records data (0, 0, 0) of
                Inl e \<Rightarrow> Inl e
              | Inr (added_loc, deleted_loc, added_commits) \<Rightarrow>
                  (case archive_trailer old_data of
                     Inl e \<Rightarrow> Inl e
                   | Inr n \<Rightarrow>
                       Inr (added_loc, deleted_loc, added_loc - deleted_loc,
                            added_commits + n, contributed_repos))))"

text \<open>\<^verbatim>\<open>add_archive\<close>: the handler catches \<^verbatim>\<open>FileNotFoundError\<close> and \<^verbatim>\<open>IndexError\<close>.\<close>

definition add_archive :: "world \<Rightarrow> (int \<times> int \<times> int \<times> int \<times> int) outcome" where
  "add_archive w =
     (case add_archive_body w of
        Inr r \<Rightarrow> Returned r w
      | Inl e \<Rightarrow>
          if e = FileNotFoundError \<or> e = IndexError then Returned (0, 0, 0, 0, 0) w
          else Raised e w)"

section \<open>Notions used to state the properties\<close>

text \<open>The world after one query has been answered: the response is consumed, the query logged.\<close>

definition served :: "query_vars \<Rightarrow> world \<Rightarrow> world" where
  "served vars w = w\<lparr>remote := tl (remote w), queries := queries w @ [vars]\<rparr>"

text \<open>The commits a response carries, and those of them whose author is the identity \<open>oid\<close>.\<close>

definition page_commits :: "response \<Rightarrow> commit_node list" where
  "page_commits r = (case r of History h \<Rightarrow> edges h | _ \<Rightarrow> [])"

definition authored_by :: "string option \<Rightarrow> commit_node list \<Rightarrow> commit_node list" where
  "authored_by oid nodes = filter (\<lambda>node. author node = Some oid) nodes"

text \<open>
  Concrete data for evaluating the model: a stand-in for the digest (any function from
  names to whitespace-free strings will do; this one reverses the name), an account, and
  commits by the tracked account and by somebody else.
\<close>

definition demo_digest :: "string \<Rightarrow> string" where
  "demo_digest s = rev s"

definition demo_config :: config where
  "demo_config = \<lparr>user_name = ''me'', owner_id = Some ''U1''\<rparr>"

definition my_commit :: commit_node where
  "my_commit = \<lparr>author = Some (Some ''U1''), additions = 5, deletions = 2\<rparr>"

definition other_commit :: commit_node where
  "other_commit = \<lparr>author = Some (Some ''U2''), additions = 7, deletions = 3\<rparr>"

definition page_more :: history_page where
  "page_more = \<lparr>edges = [my_commit, other_commit], hasNextPage = True, endCursor = Some ''c1''\<rparr>"

definition page_last :: history_page where
  "page_last = \<lparr>edges = [my_commit], hasNextPage = False, endCursor = None\<rparr>"

definition page_empty :: history_page where
  "page_empty = \<lparr>edges = [], hasNextPage = True, endCursor = Some ''c1''\<rparr>"

definition page_others :: history_page where
  "page_others = \<lparr>edges = [other_commit], hasNextPage = True, endCursor = Some ''c1''\<rparr>"

text \<open>A world with no files, whose remote will give the responses \<open>rs\<close>.\<close>

definition remote_only :: "response list \<Rightarrow> world" where
  "remote_only rs = \<lparr>files = Map.empty, remote = rs, queries = []\<rparr>"

text \<open>
  A line of text with its line end, three repositories, and a ledger of one comment line
  and three records. The first field of each record is the stand-in digest of the
  repository's name, where a real ledger has its SHA-256 digest; the records of the first
  two repositories hold commit totals that differ from the live ones.
\<close>

definition text_line :: "string \<Rightarrow> string" where
  "text_line s = s @ [newline]"

definition repo_a :: repo_node where
  "repo_a = \<lparr>nameWithOwner = ''o/a'', defaultBranchRef = Some 3\<rparr>"

definition repo_b :: repo_node where
  "repo_b = \<lparr>nameWithOwner = ''o/b'', defaultBranchRef = Some 2\<rparr>"

definition repo_c :: repo_node where
  "repo_c = \<lparr>nameWithOwner = ''o/c'', defaultBranchRef = Some 4\<rparr>"

definition demo_manager :: cache_manager where
  "demo_manager = CacheManager demo_digest (user_name demo_config)"

definition ledger_world :: "string list \<Rightarrow> response list \<Rightarrow> world" where
  "ledger_world ls rs =
     \<lparr>files = [cache_file demo_manager \<mapsto> concat ls], remote = rs, queries = []\<rparr>"

definition demo_ledger :: "string list" where
  "demo_ledger =
     [text_line ''# ledger'', text_line ''a/o 2 1 10 2'', text_line ''b/o 1 1 5 5'',
      text_line ''c/o 4 4 4 4'']"

text \<open>The world in which the run over the three repositories ends when the second walk fails.\<close>

definition failure_world :: world where
  "failure_world =
     \<lparr>files = [cache_file demo_manager \<mapsto>
          concat [text_line ''# ledger'', text_line ''a/o 3 1 5 2'', text_line ''b/o 1 1 5 5'',
                  text_line ''c/o 4 4 4 4'']],
      remote = [],
      queries = [\<lparr>q_owner = ''o'', q_repo_name = ''a'', q_cursor = None\<rparr>,
                 \<lparr>q_owner = ''o'', q_repo_name = ''b'', q_cursor = None\<rparr>]\<rparr>"

text \<open>
  The world in which the run over the three repositories ends when the second walk cannot
  reach the remote: the ledger file is as the run found it.
\<close>

definition unreached_world :: world where
  "unreached_world =
     \<lparr>files = [cache_file demo_manager \<mapsto> concat demo_ledger],
      remote = [],
      queries = [\<lparr>q_owner = ''o'', q_repo_name = ''a'', q_cursor = None\<rparr>,
                 \<lparr>q_owner = ''o'', q_repo_name = ''b'', q_cursor = None\<rparr>]\<rparr>"

text \<open>
  The lines of the ledger as a run finds them: those of the file, or, when there is no
  file, the placeholder comment lines with which the run creates it.
\<close>

definition ledger_lines :: "cache_manager \<Rightarrow> int \<Rightarrow> world \<Rightarrow> string list" where
  "ledger_lines self comment_size w =
     (case files w (cache_file self) of
        Some content \<Rightarrow> readlines content
      | None \<Rightarrow> replicate (nat comment_size) comment_line)"

text \<open>The world in which the run over the three repositories ends after two walks.\<close>

definition rewalked_world :: world where
  "rewalked_world =
     \<lparr>files = [cache_file demo_manager \<mapsto>
          concat [text_line ''# ledger'', text_line ''a/o 3 1 5 2'', text_line ''b/o 2 1 5 2'',
                  text_line ''c/o 4 4 4 4'']],
      remote = [],
      queries = [\<lparr>q_owner = ''o'', q_repo_name = ''a'', q_cursor = None\<rparr>,
                 \<lparr>q_owner = ''o'', q_repo_name = ''b'', q_cursor = None\<rparr>]\<rparr>"

text \<open>
  The fields of a record line that hold the additions and the deletions: the fourth and
  the fifth of its whitespace-separated fields, read as integers.
\<close>

definition loc_fields :: "string \<Rightarrow> (int \<times> int) option" where
  "loc_fields line =
     (case py_split line of
        repo_hash # commit_total # my_commits # a # d # others \<Rightarrow>
          (case (py_int a, py_int d) of
             (Some x, Some y) \<Rightarrow> Some (x, y)
           | _ \<Rightarrow> None)
      | _ \<Rightarrow> None)"

text \<open>
  Lines as \<^verbatim>\<open>readlines\<close> gives them: a complete line ends with its only line end; the
  last line of a text may lack the line end, and no line is empty.
\<close>

definition complete_line :: "string \<Rightarrow> bool" where
  "complete_line l \<longleftrightarrow> l \<noteq> [] \<and> last l = newline \<and> newline \<notin> set (butlast l)"

fun lines_ok :: "string list \<Rightarrow> bool" where
  "lines_ok [] = True"
| "lines_ok [l] = (l \<noteq> [] \<and> newline \<notin> set (butlast l))"
| "lines_ok (l # l' # ls) = (complete_line l \<and> lines_ok (l' # ls))"

text \<open>A world whose only file is the archive, holding the given lines.\<close>

definition archive_world :: "string list \<Rightarrow> world" where
  "archive_world ls = \<lparr>files = [archive_path \<mapsto> concat ls], remote = [], queries = []\<rparr>"

section \<open>Properties of lines and fields\<close>

lemma readlines_line:
  "newline \<notin> set body \<Longrightarrow>
   readlines (body @ newline # rest) = (body @ [newline]) # readlines rest"
  by (induction body) auto

lemma concat_readlines: "concat (readlines s) = s"
  by (induction s) (auto split: list.splits)

lemma readlines_Nil_iff [simp]: "readlines s = [] \<longleftrightarrow> s = []"
  by (cases s) (auto split: list.splits)

lemma readlines_no_newline: "s \<noteq> [] \<Longrightarrow> newline \<notin> set s \<Longrightarrow> readlines s = [s]"
proof (induction s)
  case Nil
  then show ?case by simp
next
  case (Cons c s)
  then show ?case by (cases "s = []") auto
qed

lemma complete_lineD:
  "complete_line l \<Longrightarrow> \<exists>body. l = body @ [newline] \<and> newline \<notin> set body"
  unfolding complete_line_def by (metis append_butlast_last_id)

lemma complete_lineI: "newline \<notin> set body \<Longrightarrow> complete_line (body @ [newline])"
  by (simp add: complete_line_def)

lemma lines_ok_readlines: "lines_ok (readlines s)"
proof (induction s)
  case Nil
  show ?case by simp
next
  case (Cons c s)
  show ?case
  proof (cases "c = newline")
    case True
    then show ?thesis using Cons
      by (cases "readlines s") (simp_all add: complete_line_def)
  next
    case False
    show ?thesis
    proof (cases "readlines s")
      case Nil
      with False show ?thesis by simp
    next
      case (Cons l ls)
      with Cons.IH False show ?thesis
        by (cases ls) (auto simp: complete_line_def)
    qed
  qed
qed

lemma readlines_concat: "lines_ok ls \<Longrightarrow> readlines (concat ls) = ls"
proof (induction ls rule: lines_ok.induct)
  case 1
  show ?case by simp
next
  case (2 l)
  show ?case
  proof (cases "last l = newline")
    case True
    with 2 have "complete_line l" by (simp add: complete_line_def)
    from complete_lineD [OF this] obtain body where "l = body @ [newline]" "newline \<notin> set body"
      by blast
    then show ?thesis using readlines_line [of body "[]"] by simp
  next
    case False
    with 2 have "newline \<notin> set l"
      by (metis append_butlast_last_id lines_ok.simps(2) rotate1.simps(2) set_ConsD set_rotate1)
    with 2 show ?thesis by (simp add: readlines_no_newline)
  qed
next
  case (3 l l' ls)
  then obtain body where "l = body @ [newline]" "newline \<notin> set body"
    using complete_lineD by auto
  with 3 show ?case using readlines_line [of body "concat (l' # ls)"] by simp
qed

lemma lines_ok_update:
  "lines_ok ls \<Longrightarrow> i < length ls \<Longrightarrow> complete_line l \<Longrightarrow> lines_ok (ls[i := l])"
proof (induction ls arbitrary: i rule: lines_ok.induct)
  case 1
  then show ?case by simp
next
  case (2 l0)
  then show ?case by (simp add: complete_line_def)
next
  case (3 l0 l' ls)
  show ?case
  proof (cases i)
    case 0
    with 3 show ?thesis by simp
  next
    case (Suc j)
    with 3 have ok: "lines_ok ((l' # ls)[j := l])" by simp
    show ?thesis
    proof (cases j)
      case 0
      with ok 3 Suc show ?thesis by simp
    next
      case (Suc k)
      with ok 3 \<open>i = Suc j\<close> show ?thesis by simp
    qed
  qed
qed

lemma py_split_tokens:
  "t \<in> set (py_split s) \<Longrightarrow> t \<noteq> [] \<and> (\<forall>c\<in>set t. \<not> is_space c)"
proof (induction s arbitrary: t rule: py_split.induct)
  case 1
  then show ?case by simp
next
  case (2 c cs)
  show ?case
  proof (cases "is_space c")
    case True
    with "2.prems" have "t \<in> set (py_split cs)" by simp
    from "2.IH"(1) [OF True this] show ?thesis .
  next
    case nsp: False
    show ?thesis
    proof (cases cs)
      case Nil
      with "2.prems" nsp have "t = [c]" by simp
      with nsp show ?thesis by simp
    next
      case (Cons d ds)
      show ?thesis
      proof (cases "is_space d")
        case True
        with "2.prems" nsp Cons have "t = [c] \<or> t \<in> set (py_split ds)" by simp
        then show ?thesis
        proof
          assume "t = [c]"
          with nsp show ?thesis by simp
        next
          assume "t \<in> set (py_split ds)"
          from "2.IH"(2) [OF nsp Cons True this] show ?thesis .
        qed
      next
        case dns: False
        note IH = "2.IH"(3) [OF nsp Cons dns]
        show ?thesis
        proof (cases "py_split cs")
          case Nil
          with "2.prems" nsp Cons dns have "t = [c]" by simp
          with nsp show ?thesis by simp
        next
          case tokens: (Cons u us)
          with "2.prems" nsp Cons dns have "t = c # u \<or> t \<in> set us" by simp
          then show ?thesis
          proof
            assume t: "t = c # u"
            have "u \<in> set (py_split cs)" by (simp add: tokens)
            from IH [OF this] t nsp show ?thesis by simp
          next
            assume "t \<in> set us"
            then have "t \<in> set (py_split cs)" by (simp add: tokens)
            from IH [OF this] show ?thesis .
          qed
        qed
      qed
    qed
  qed
qed

lemma is_space_newline [simp]: "is_space newline"
  by (simp add: is_space_def newline_def)

lemma digit_char_not_newline: "n < 10 \<Longrightarrow> newline \<noteq> digit_char n"
proof -
  assume "n < 10"
  then have "digit_char n \<in> set ''0123456789''"
    unfolding digit_char_def by (intro nth_mem) simp
  then show ?thesis by (auto simp: newline_def)
qed

lemma str_nat_no_newline: "newline \<notin> set (str_nat n)"
proof (induction n rule: str_nat.induct)
  case (1 n)
  show ?case
  proof (cases "n < 10")
    case True
    then show ?thesis by (subst str_nat.simps) (simp add: digit_char_not_newline)
  next
    case False
    with 1 show ?thesis
      by (subst str_nat.simps) (simp add: digit_char_not_newline)
  qed
qed

lemma str_int_no_newline: "newline \<notin> set (str_int i)"
  by (simp add: str_int_def str_nat_no_newline) (simp add: newline_def)

lemma complete_sentinel_record:
  "newline \<notin> set h \<Longrightarrow> complete_line (sentinel_record h)"
proof -
  assume "newline \<notin> set h"
  then have "newline \<notin> set (h @ '' 0 0 0 0'')" by (simp add: newline_def)
  from complete_lineI [OF this] show ?thesis by (simp add: sentinel_record_def)
qed

lemma complete_walked_record:
  "newline \<notin> set h \<Longrightarrow> complete_line (walked_record h n loc)"
proof -
  obtain a d m where loc: "loc = (a, d, m)" by (cases loc)
  assume "newline \<notin> set h"
  then have "newline \<notin> set (h @ '' '' @ str_int n @ '' '' @ str_int m @ '' '' @
      str_int a @ '' '' @ str_int d)"
    by (simp add: str_int_no_newline) (simp add: newline_def)
  from complete_lineI [OF this] show ?thesis by (simp add: walked_record_def loc)
qed

lemma slice_append [simp]: "slice_to xs n @ slice_from xs n = xs"
  by (simp add: slice_to_def slice_from_def)

lemma slice_from_same_length:
  "length ys = length (slice_from xs n) \<Longrightarrow> slice_from (slice_to xs n @ ys) n = ys"
  by (auto simp: slice_to_def slice_from_def min_def)

lemma five_fields:
  assumes "4 < length xs"
  shows "\<exists>r c m a d others. xs = r # c # m # a # d # others"
proof -
  from assms obtain r x1 where 1: "xs = r # x1" "3 < length x1" by (cases xs) auto
  then obtain c x2 where 2: "x1 = c # x2" "2 < length x2" by (cases x1) auto
  then obtain m x3 where 3: "x2 = m # x3" "1 < length x3" by (cases x2) auto
  then obtain a x4 where 4: "x3 = a # x4" "0 < length x4" by (cases x3) auto
  then obtain d x5 where 5: "x4 = d # x5" by (cases x4) auto
  from 1 2 3 4 5 show ?thesis by simp
qed

lemma lines_ok_mem: "lines_ok ls \<Longrightarrow> l \<in> set ls \<Longrightarrow> l \<noteq> [] \<and> newline \<notin> set (butlast l)"
  by (induction ls rule: lines_ok.induct) (auto simp: complete_line_def)

lemma all_complete_lines_ok: "\<forall>l\<in>set ls. complete_line l \<Longrightarrow> lines_ok ls"
  by (induction ls rule: lines_ok.induct) (auto simp: complete_line_def)

section \<open>Properties of the history walk\<close>

lemma execute_query_Nil [simp]: "remote w = [] \<Longrightarrow> execute_query vars w = Starved"
  by (simp add: execute_query_def)

lemma execute_query_Cons:
  "remote w = r # rs \<Longrightarrow>
   execute_query vars w =
     (if r = Transport_Failure then Raised RequestException (served vars w)
      else if r = Status_Error then Raised APIError (served vars w)
      else if r = Undecodable_Body then Raised JSONDecodeError (served vars w)
      else Returned r (served vars w))"
  by (simp add: execute_query_def served_def Let_def)

lemma served_simps [simp]:
  "files (served vars w) = files w"
  "remote (served vars w) = tl (remote w)"
  "queries (served vars w) = queries w @ [vars]"
  by (simp_all add: served_def)

lemma force_close_file_simps [simp]:
  "files (force_close_file H cfg data cc w) =
     (files w)(get_cache_filename H ''cache'' (user_name cfg) \<mapsto> concat (cc @ data))"
  "remote (force_close_file H cfg data cc w) = remote w"
  "queries (force_close_file H cfg data cc w) = queries w"
  by (simp_all add: force_close_file_def write_file_def)

lemma force_close_file_idem:
  "force_close_file H cfg data cc (force_close_file H cfg data cc w) =
   force_close_file H cfg data cc w"
  by (simp add: force_close_file_def write_file_def)

lemma walk_Starved:
  "remote w = [] \<Longrightarrow> process_loc_for_repo H cfg owner repo data cc cursor totals w = Starved"
  by (simp add: process_loc_for_repo.simps except_APIError_def)

lemma walk_Status_Error:
  "remote w = Status_Error # rs \<Longrightarrow>
   process_loc_for_repo H cfg owner repo data cc cursor totals w =
     Raised APIError (force_close_file H cfg data cc
       (served \<lparr>q_owner = owner, q_repo_name = repo, q_cursor = cursor\<rparr> w))"
  by (simp add: process_loc_for_repo.simps [of H cfg owner repo data cc cursor totals w]
        execute_query_Cons except_APIError_def)

lemma walk_Transport_Failure:
  "remote w = Transport_Failure # rs \<Longrightarrow>
   process_loc_for_repo H cfg owner repo data cc cursor totals w =
     Raised RequestException
       (served \<lparr>q_owner = owner, q_repo_name = repo, q_cursor = cursor\<rparr> w)"
  by (simp add: process_loc_for_repo.simps [of H cfg owner repo data cc cursor totals w]
        execute_query_Cons except_APIError_def)

lemma walk_Undecodable_Body:
  "remote w = Undecodable_Body # rs \<Longrightarrow>
   process_loc_for_repo H cfg owner repo data cc cursor totals w =
     Raised JSONDecodeError
       (served \<lparr>q_owner = owner, q_repo_name = repo, q_cursor = cursor\<rparr> w)"
  by (simp add: process_loc_for_repo.simps [of H cfg owner repo data cc cursor totals w]
        execute_query_Cons except_APIError_def)

lemma walk_Repository_Null:
  "remote w = Repository_Null # rs \<Longrightarrow>
   process_loc_for_repo H cfg owner repo data cc cursor totals w =
     Raised TypeError (served \<lparr>q_owner = owner, q_repo_name = repo, q_cursor = cursor\<rparr> w)"
  by (simp add: process_loc_for_repo.simps [of H cfg owner repo data cc cursor totals w]
        execute_query_Cons except_APIError_def)

lemma walk_No_Default_Branch:
  "remote w = No_Default_Branch # rs \<Longrightarrow>
   process_loc_for_repo H cfg owner repo data cc cursor totals w =
     Returned totals (served \<lparr>q_owner = owner, q_repo_name = repo, q_cursor = cursor\<rparr> w)"
  by (simp add: process_loc_for_repo.simps [of H cfg owner repo data cc cursor totals w]
        execute_query_Cons except_APIError_def)

lemma count_commits_error: "count_commits oid nodes totals = Inl e \<Longrightarrow> e = TypeError"
  by (induction oid nodes totals rule: count_commits.induct) (auto split: option.splits if_splits)

lemma except_APIError_idem:
  "except_APIError H cfg data cc (except_APIError H cfg data cc r) =
   except_APIError H cfg data cc r"
  by (cases r) (simp_all add: except_APIError_def force_close_file_idem)

text \<open>A failure that went through the handler of a later call is unchanged by an earlier one.\<close>

lemma except_APIError_walk:
  "except_APIError H cfg data cc (process_loc_for_repo H cfg owner repo data cc cursor totals w) =
   process_loc_for_repo H cfg owner repo data cc cursor totals w"
  by (subst (1 2) process_loc_for_repo.simps) (rule except_APIError_idem)

lemma walk_History:
  "remote w = History h # rs \<Longrightarrow>
   process_loc_for_repo H cfg owner repo data cc cursor totals w =
     (case count_commits (owner_id cfg) (edges h) totals of
        Inl e \<Rightarrow> Raised TypeError
                   (served \<lparr>q_owner = owner, q_repo_name = repo, q_cursor = cursor\<rparr> w)
      | Inr totals' \<Rightarrow>
          if edges h \<noteq> [] \<and> hasNextPage h
          then process_loc_for_repo H cfg owner repo data cc (endCursor h) totals'
                 (served \<lparr>q_owner = owner, q_repo_name = repo, q_cursor = cursor\<rparr> w)
          else Returned totals'
                 (served \<lparr>q_owner = owner, q_repo_name = repo, q_cursor = cursor\<rparr> w))"
  by (auto simp: process_loc_for_repo.simps [of H cfg owner repo data cc cursor totals w]
        execute_query_Cons except_APIError_def except_APIError_walk [unfolded except_APIError_def]
        split: sum.splits dest: count_commits_error)

lemma walk_step:
  "remote w = x # rs \<Longrightarrow>
   process_loc_for_repo H cfg owner repo data cc cursor totals w =
     (let w1 = served \<lparr>q_owner = owner, q_repo_name = repo, q_cursor = cursor\<rparr> w in
      case x of
        Transport_Failure \<Rightarrow> Raised RequestException w1
      | Status_Error \<Rightarrow> Raised APIError (force_close_file H cfg data cc w1)
      | Undecodable_Body \<Rightarrow> Raised JSONDecodeError w1
      | Repository_Null \<Rightarrow> Raised TypeError w1
      | No_Default_Branch \<Rightarrow> Returned totals w1
      | History h \<Rightarrow>
          (case count_commits (owner_id cfg) (edges h) totals of
             Inl e \<Rightarrow> Raised TypeError w1
           | Inr totals' \<Rightarrow>
               if edges h \<noteq> [] \<and> hasNextPage h
               then process_loc_for_repo H cfg owner repo data cc (endCursor h) totals' w1
               else Returned totals' w1))"
  by (cases x)
     (simp_all add: Let_def walk_Transport_Failure walk_Status_Error walk_Undecodable_Body
        walk_Repository_Null walk_No_Default_Branch walk_History)

text \<open>What a walk that raises does to the files.\<close>

lemma walk_Raised_files:
  "process_loc_for_repo H cfg owner repo data cc cursor totals w = Raised e w' \<Longrightarrow>
   (e = APIError \<and>
      files w' = (files w)(get_cache_filename H ''cache'' (user_name cfg) \<mapsto> concat (cc @ data)))
   \<or> (e \<noteq> APIError \<and> files w' = files w)"
proof (induction "remote w" arbitrary: w cursor totals)
  case Nil
  then show ?case by (simp add: walk_Starved)
next
  case (Cons x rs)
  let ?w1 = "served \<lparr>q_owner = owner, q_repo_name = repo, q_cursor = cursor\<rparr> w"
  have rw: "remote w = x # rs" using Cons.hyps(2) by simp
  have rs: "rs = remote ?w1" using rw by simp
  note step = walk_step [OF rw, of H cfg owner repo data cc cursor totals]
  show ?case
  proof (cases x)
    case (History h)
    show ?thesis
    proof (cases "count_commits (owner_id cfg) (edges h) totals")
      case (Inl e')
      with step History Cons.prems show ?thesis by (auto simp: Let_def)
    next
      case (Inr totals')
      show ?thesis
      proof (cases "edges h \<noteq> [] \<and> hasNextPage h")
        case False
        with step History Inr Cons.prems show ?thesis by (auto simp: Let_def)
      next
        case True
        with step History Inr Cons.prems
        have "process_loc_for_repo H cfg owner repo data cc (endCursor h) totals' ?w1 = Raised e w'"
          by (simp add: Let_def)
        from Cons.hyps(1) [OF rs this] show ?thesis by simp
      qed
    qed
  qed (use step Cons.prems in \<open>auto simp: Let_def\<close>)
qed

text \<open>A walk that returns leaves the files alone.\<close>

lemma walk_Returned_files:
  "process_loc_for_repo H cfg owner repo data cc cursor totals w = Returned r w' \<Longrightarrow>
   files w' = files w"
proof (induction "remote w" arbitrary: w cursor totals)
  case Nil
  then show ?case by (simp add: walk_Starved)
next
  case (Cons x rs)
  let ?w1 = "served \<lparr>q_owner = owner, q_repo_name = repo, q_cursor = cursor\<rparr> w"
  have rw: "remote w = x # rs" using Cons.hyps(2) by simp
  have rs: "rs = remote ?w1" using rw by simp
  note step = walk_step [OF rw, of H cfg owner repo data cc cursor totals]
  show ?case
  proof (cases x)
    case (History h)
    show ?thesis
    proof (cases "count_commits (owner_id cfg) (edges h) totals")
      case (Inl e')
      with step History Cons.prems show ?thesis by (auto simp: Let_def)
    next
      case (Inr totals')
      show ?thesis
      proof (cases "edges h \<noteq> [] \<and> hasNextPage h")
        case False
        with step History Inr Cons.prems show ?thesis by (auto simp: Let_def)
      next
        case True
        with step History Inr Cons.prems
        have "process_loc_for_repo H cfg owner repo data cc (endCursor h) totals' ?w1 = Returned r w'"
          by (simp add: Let_def)
        from Cons.hyps(1) [OF rs this] show ?thesis by simp
      qed
    qed
  qed (use step Cons.prems in \<open>auto simp: Let_def\<close>)
qed

lemma count_commits_sums:
  "count_commits oid nodes (a, d, m) = Inr (a', d', m') \<Longrightarrow>
   a' = a + sum_list (map additions (authored_by oid nodes)) \<and>
   d' = d + sum_list (map deletions (authored_by oid nodes)) \<and>
   m' = m + int (length (authored_by oid nodes))"
proof (induction nodes arbitrary: a d m)
  case Nil
  then show ?case by (simp add: authored_by_def)
next
  case (Cons node nodes)
  show ?case
  proof (cases "author node = Some oid")
    case True
    with Cons.prems have
      "count_commits oid nodes (a + additions node, d + deletions node, m + 1) = Inr (a', d', m')"
      by simp
    from Cons.IH [OF this] True show ?thesis by (simp add: authored_by_def)
  next
    case False
    with Cons.prems have "count_commits oid nodes (a, d, m) = Inr (a', d', m')"
      by (simp split: option.splits)
    from Cons.IH [OF this] False show ?thesis by (simp add: authored_by_def)
  qed
qed

lemma count_commits_append:
  "count_commits oid (xs @ ys) totals =
     (case count_commits oid xs totals of
        Inl e \<Rightarrow> Inl e
      | Inr totals' \<Rightarrow> count_commits oid ys totals')"
  by (induction oid xs totals rule: count_commits.induct) (auto split: option.splits)

lemma walk_Returned_sums:
  "process_loc_for_repo H cfg owner repo data cc cursor (a, d, m) w = Returned (a', d', m') w' \<Longrightarrow>
   \<exists>fetched. remote w = fetched @ remote w' \<and> fetched \<noteq> [] \<and>
     a' = a + sum_list (map additions (authored_by (owner_id cfg) (concat (map page_commits fetched)))) \<and>
     d' = d + sum_list (map deletions (authored_by (owner_id cfg) (concat (map page_commits fetched)))) \<and>
     m' = m + int (length (authored_by (owner_id cfg) (concat (map page_commits fetched))))"
proof (induction "remote w" arbitrary: w cursor a d m)
  case Nil
  then show ?case by (simp add: walk_Starved)
next
  case (Cons x rs)
  let ?w1 = "served \<lparr>q_owner = owner, q_repo_name = repo, q_cursor = cursor\<rparr> w"
  have rw: "remote w = x # rs" using Cons.hyps(2) by simp
  have rs: "rs = remote ?w1" using rw by simp
  note step = walk_step [OF rw, of H cfg owner repo data cc cursor "(a, d, m)"]
  show ?case
  proof (cases x)
    case (History h)
    show ?thesis
    proof (cases "count_commits (owner_id cfg) (edges h) (a, d, m)")
      case (Inl e')
      with step History Cons.prems show ?thesis by (simp add: Let_def)
    next
      case (Inr totals')
      obtain a1 d1 m1 where t: "totals' = (a1, d1, m1)" by (cases totals')
      note sums = count_commits_sums [OF Inr [unfolded t]]
      show ?thesis
      proof (cases "edges h \<noteq> [] \<and> hasNextPage h")
        case False
        with step History Inr t Cons.prems have "a' = a1" "d' = d1" "m' = m1" "w' = ?w1"
          by (auto simp: Let_def)
        with sums rw History show ?thesis
          by (intro exI [of _ "[x]"]) (simp add: page_commits_def)
      next
        case True
        with step History Inr t Cons.prems
        have "process_loc_for_repo H cfg owner repo data cc (endCursor h) (a1, d1, m1) ?w1 =
              Returned (a', d', m') w'"
          by (simp add: Let_def)
        from Cons.hyps(1) [OF rs this] obtain fetched where
          f: "remote ?w1 = fetched @ remote w'"
          "a' = a1 + sum_list (map additions (authored_by (owner_id cfg) (concat (map page_commits fetched))))"
          "d' = d1 + sum_list (map deletions (authored_by (owner_id cfg) (concat (map page_commits fetched))))"
          "m' = m1 + int (length (authored_by (owner_id cfg) (concat (map page_commits fetched))))"
          by blast
        with sums rw History show ?thesis
          by (intro exI [of _ "x # fetched"]) (simp add: page_commits_def authored_by_def)
      qed
    qed
  next
    case No_Default_Branch
    with step Cons.prems rw show ?thesis
      by (intro exI [of _ "[x]"]) (auto simp: Let_def page_commits_def authored_by_def)
  qed (use step Cons.prems in \<open>auto simp: Let_def\<close>)
qed

lemma walk_until_No_Default_Branch:
  "remote w = map History pages @ No_Default_Branch # rest \<Longrightarrow>
   \<forall>p\<in>set pages. edges p \<noteq> [] \<and> hasNextPage p \<Longrightarrow>
   count_commits (owner_id cfg) (concat (map edges pages)) totals = Inr acc \<Longrightarrow>
   \<exists>w'. process_loc_for_repo H cfg owner repo data cc cursor totals w = Returned acc w' \<and>
        remote w' = rest \<and> files w' = files w \<and>
        queries w' = queries w @
          map (\<lambda>c. \<lparr>q_owner = owner, q_repo_name = repo, q_cursor = c\<rparr>)
            (cursor # map endCursor pages)"
proof (induction pages arbitrary: w cursor totals)
  case Nil
  then show ?case by (simp add: walk_No_Default_Branch)
next
  case (Cons p pages)
  let ?w1 = "served \<lparr>q_owner = owner, q_repo_name = repo, q_cursor = cursor\<rparr> w"
  from Cons.prems(3) obtain t1 where
    t1: "count_commits (owner_id cfg) (edges p) totals = Inr t1" and
    acc: "count_commits (owner_id cfg) (concat (map edges pages)) t1 = Inr acc"
    by (auto simp: count_commits_append split: sum.splits)
  have r1: "remote ?w1 = map History pages @ No_Default_Branch # rest"
    using Cons.prems(1) by simp
  have "\<forall>p\<in>set pages. edges p \<noteq> [] \<and> hasNextPage p" using Cons.prems(2) by simp
  from Cons.IH [OF r1 this acc, of "endCursor p"] obtain w' where
    "process_loc_for_repo H cfg owner repo data cc (endCursor p) t1 ?w1 = Returned acc w'"
    "remote w' = rest" "files w' = files w"
    "queries w' = queries ?w1 @
       map (\<lambda>c. \<lparr>q_owner = owner, q_repo_name = repo, q_cursor = c\<rparr>)
         (endCursor p # map endCursor pages)"
    by auto
  with Cons.prems(1,2) t1 show ?case
    by (simp add: walk_History)
qed

text \<open>
  When the model has no answer (\<open>Starved\<close>), the walk has used up every response
  provided and each of them was a page that told it to go on.
\<close>

lemma walk_Starved_exhausted:
  "process_loc_for_repo H cfg owner repo data cc cursor totals w = Starved \<Longrightarrow>
   \<exists>pages. remote w = map History pages \<and> (\<forall>p\<in>set pages. edges p \<noteq> [] \<and> hasNextPage p)"
proof (induction "remote w" arbitrary: w cursor totals)
  case Nil
  then show ?case by simp
next
  case (Cons x rs)
  let ?w1 = "served \<lparr>q_owner = owner, q_repo_name = repo, q_cursor = cursor\<rparr> w"
  have rw: "remote w = x # rs" using Cons.hyps(2) by simp
  have rs: "rs = remote ?w1" using rw by simp
  note step = walk_step [OF rw, of H cfg owner repo data cc cursor totals]
  show ?case
  proof (cases x)
    case (History h)
    show ?thesis
    proof (cases "count_commits (owner_id cfg) (edges h) totals")
      case (Inl e')
      with step History Cons.prems show ?thesis by (simp add: Let_def)
    next
      case (Inr totals')
      with step History Cons.prems have go: "edges h \<noteq> [] \<and> hasNextPage h" and
        inner: "process_loc_for_repo H cfg owner repo data cc (endCursor h) totals' ?w1 = Starved"
        by (simp_all add: Let_def split: if_splits)
      from Cons.hyps(1) [OF rs inner] obtain pages where
        "remote ?w1 = map History pages" "\<forall>p\<in>set pages. edges p \<noteq> [] \<and> hasNextPage p"
        by blast
      with rw History go show ?thesis
        by (intro exI [of _ "h # pages"]) simp
    qed
  qed (use step Cons.prems in \<open>auto simp: Let_def\<close>)
qed

text \<open>
  A walk returns when the remote serves pages that make it go on, whose commits all have an
  author, and then a page that ends it.
\<close>

lemma walk_returns:
  "remote w = map History pages @ History final # rest \<Longrightarrow>
   \<forall>p\<in>set pages. edges p \<noteq> [] \<and> hasNextPage p \<Longrightarrow>
   \<not> (edges final \<noteq> [] \<and> hasNextPage final) \<Longrightarrow>
   count_commits (owner_id cfg) (concat (map edges pages) @ edges final) totals = Inr acc \<Longrightarrow>
   \<exists>w'. process_loc_for_repo H cfg owner repo data cc cursor totals w = Returned acc w' \<and>
        remote w' = rest \<and> files w' = files w \<and>
        queries w' = queries w @
          map (\<lambda>c. \<lparr>q_owner = owner, q_repo_name = repo, q_cursor = c\<rparr>)
            (cursor # map endCursor pages)"
proof (induction pages arbitrary: w cursor totals)
  case Nil
  then show ?case by (auto simp: walk_History)
next
  case (Cons p pages)
  let ?w1 = "served \<lparr>q_owner = owner, q_repo_name = repo, q_cursor = cursor\<rparr> w"
  from Cons.prems(4) obtain t1 where
    t1: "count_commits (owner_id cfg) (edges p) totals = Inr t1" and
    acc: "count_commits (owner_id cfg) (concat (map edges pages) @ edges final) t1 = Inr acc"
    by (auto simp: count_commits_append split: sum.splits)
  have r1: "remote ?w1 = map History pages @ History final # rest"
    using Cons.prems(1) by simp
  have "\<forall>p\<in>set pages. edges p \<noteq> [] \<and> hasNextPage p" using Cons.prems(2) by simp
  from Cons.IH [OF r1 this Cons.prems(3) acc, of "endCursor p"] obtain w' where
    "process_loc_for_repo H cfg owner repo data cc (endCursor p) t1 ?w1 = Returned acc w'"
    "remote w' = rest" "files w' = files w"
    "queries w' = queries ?w1 @
       map (\<lambda>c. \<lparr>q_owner = owner, q_repo_name = repo, q_cursor = c\<rparr>)
         (endCursor p # map endCursor pages)"
    by auto
  with Cons.prems(1,2) t1 show ?case
    by (simp add: walk_History)
qed

text \<open>When every commit has an author, the loop over a page counts all of it.\<close>

lemma count_commits_total:
  "\<forall>node\<in>set nodes. author node \<noteq> None \<Longrightarrow>
   count_commits oid nodes (a, d, m) =
     Inr (a + sum_list (map additions (authored_by oid nodes)),
          d + sum_list (map deletions (authored_by oid nodes)),
          m + int (length (authored_by oid nodes)))"
proof (induction nodes arbitrary: a d m)
  case Nil
  show ?case by (simp add: authored_by_def)
next
  case (Cons node nodes)
  then obtain user where user: "author node = Some user" by auto
  from Cons have IH: "\<And>a d m. count_commits oid nodes (a, d, m) =
     Inr (a + sum_list (map additions (authored_by oid nodes)),
          d + sum_list (map deletions (authored_by oid nodes)),
          m + int (length (authored_by oid nodes)))"
    by simp
  show ?case by (cases "user = oid") (simp_all add: user IH authored_by_def)
qed

lemma walk_step_world:
  "process_loc_for_repo H cfg owner repo data cc cursor totals
     \<lparr>files = f, remote = x # rs, queries = q\<rparr> =
     (let w1 = \<lparr>files = f, remote = rs,
                queries = q @ [\<lparr>q_owner = owner, q_repo_name = repo, q_cursor = cursor\<rparr>]\<rparr> in
      case x of
        Transport_Failure \<Rightarrow> Raised RequestException w1
      | Status_Error \<Rightarrow> Raised APIError (force_close_file H cfg data cc w1)
      | Undecodable_Body \<Rightarrow> Raised JSONDecodeError w1
      | Repository_Null \<Rightarrow> Raised TypeError w1
      | No_Default_Branch \<Rightarrow> Returned totals w1
      | History h \<Rightarrow>
          (case count_commits (owner_id cfg) (edges h) totals of
             Inl e \<Rightarrow> Raised TypeError w1
           | Inr totals' \<Rightarrow>
               if edges h \<noteq> [] \<and> hasNextPage h
               then process_loc_for_repo H cfg owner repo data cc (endCursor h) totals' w1
               else Returned totals' w1))"
  by (simp add: walk_step [of _ x rs] served_def)

lemmas demo_defs = demo_config_def my_commit_def other_commit_def

text \<open>
  C10. A response that reports no default branch ends the walk with the totals accumulated
  up to it. Here the remote first serves any number of pages that make the walk go on
  (each with commits and the signal that more pages remain), whose commits count up from
  the accumulator arguments \<open>totals\<close> to \<open>acc\<close>, and then reports no default branch:
  the walk returns exactly \<open>acc\<close>, raises nothing, and leaves the files alone. With no
  page before it, \<open>acc\<close> is the accumulator arguments themselves.
\<close>

theorem no_default_branch_returns_accumulated:
  assumes "remote w = map History pages @ No_Default_Branch # rest"
    and "\<forall>p\<in>set pages. edges p \<noteq> [] \<and> hasNextPage p"
    and "count_commits (owner_id cfg) (concat (map edges pages)) totals = Inr acc"
  shows "\<exists>w'. process_loc_for_repo H cfg owner repo_name data cache_comment cursor totals w =
                Returned acc w' \<and> remote w' = rest \<and> files w' = files w"
  using walk_until_No_Default_Branch [OF assms] by blast

theorem no_default_branch_returns_accumulated_witness:
  "remote (remote_only [History page_more, No_Default_Branch]) =
     map History [page_more] @ No_Default_Branch # [] \<and>
   edges page_more \<noteq> [] \<and> hasNextPage page_more \<and>
   count_commits (owner_id demo_config) (concat (map edges [page_more])) (0, 0, 0) = Inr (5, 2, 1) \<and>
   (\<exists>w'. process_loc_for_repo demo_digest demo_config ''o'' ''r'' [] [] None (0, 0, 0)
            (remote_only [History page_more, No_Default_Branch]) = Returned (5, 2, 1) w' \<and>
          remote w' = [] \<and> files w' = files (remote_only [History page_more, No_Default_Branch]))"
proof -
  have h1: "remote (remote_only [History page_more, No_Default_Branch]) =
     map History [page_more] @ No_Default_Branch # []"
    by (simp add: remote_only_def)
  have h2: "\<forall>p\<in>set [page_more]. edges p \<noteq> [] \<and> hasNextPage p"
    by (simp add: page_more_def)
  have h3: "count_commits (owner_id demo_config) (concat (map edges [page_more])) (0, 0, 0) =
     Inr (5, 2, 1)"
    by (simp add: page_more_def demo_defs)
  from no_default_branch_returns_accumulated [OF h1 h2 h3, of demo_digest "''o''" "''r''" "[]" "[]" None]
  show ?thesis using h1 h2 h3 by simp
qed

text \<open>
  C7. The remote serves pages that make the walk go on and then a page that ends it (an
  empty one, or one without the signal that more pages remain); every commit of these pages
  has an author. Then the walk fetches exactly these pages and returns the accumulator
  arguments plus the additions, the deletions and the number of exactly those of their
  commits whose author identity equals \<^verbatim>\<open>config.owner_id\<close>: such a commit adds its
  additions and deletions and counts as one, and the commits of any other author contribute
  nothing. (A commit whose author is \<^verbatim>\<open>null\<close> makes the walk raise \<^verbatim>\<open>TypeError\<close>.)
\<close>

theorem walk_counts_tracked_author_only:
  assumes "remote w = map History pages @ History final # rest"
    and "\<forall>p\<in>set pages. edges p \<noteq> [] \<and> hasNextPage p"
    and "edges final = [] \<or> \<not> hasNextPage final"
    and "\<forall>node\<in>set (concat (map edges (pages @ [final]))). author node \<noteq> None"
  shows "let mine = authored_by (owner_id cfg) (concat (map edges (pages @ [final])))
         in \<exists>w'.
              process_loc_for_repo H cfg owner repo_name data cache_comment cursor (a, d, m) w =
                Returned (a + sum_list (map additions mine),
                          d + sum_list (map deletions mine),
                          m + int (length mine)) w' \<and>
              remote w' = rest \<and> files w' = files w \<and>
              queries w' = queries w @
                map (\<lambda>c. \<lparr>q_owner = owner, q_repo_name = repo_name, q_cursor = c\<rparr>)
                  (cursor # map endCursor pages)"
proof -
  have stop: "\<not> (edges final \<noteq> [] \<and> hasNextPage final)" using assms(3) by blast
  have "count_commits (owner_id cfg) (concat (map edges pages) @ edges final) (a, d, m) =
      Inr (a + sum_list (map additions
                 (authored_by (owner_id cfg) (concat (map edges pages) @ edges final))),
           d + sum_list (map deletions
                 (authored_by (owner_id cfg) (concat (map edges pages) @ edges final))),
           m + int (length (authored_by (owner_id cfg) (concat (map edges pages) @ edges final))))"
    using assms(4) by (intro count_commits_total) simp
  from walk_returns [OF assms(1,2) stop this, of H owner repo_name data cache_comment cursor]
  show ?thesis by (simp add: Let_def)
qed

theorem walk_counts_tracked_author_only_witness:
  "remote (remote_only [History page_more, History page_last, No_Default_Branch]) =
     map History [page_more] @ History page_last # [No_Default_Branch] \<and>
   edges page_more \<noteq> [] \<and> hasNextPage page_more \<and>
   \<not> hasNextPage page_last \<and>
   map author (concat (map edges ([page_more] @ [page_last]))) =
     [Some (Some ''U1''), Some (Some ''U2''), Some (Some ''U1'')] \<and>
   authored_by (owner_id demo_config) (concat (map edges ([page_more] @ [page_last]))) =
     [my_commit, my_commit] \<and>
   process_loc_for_repo demo_digest demo_config ''o'' ''r'' [] [] None (0, 0, 0)
     (remote_only [History page_more, History page_last, No_Default_Branch]) =
   Returned (10, 4, 2)
     \<lparr>files = Map.empty, remote = [No_Default_Branch],
      queries = [\<lparr>q_owner = ''o'', q_repo_name = ''r'', q_cursor = None\<rparr>,
                 \<lparr>q_owner = ''o'', q_repo_name = ''r'', q_cursor = Some ''c1''\<rparr>]\<rparr>"
proof -
  have h1: "remote (remote_only [History page_more, History page_last, No_Default_Branch]) =
     map History [page_more] @ History page_last # [No_Default_Branch]"
    by (simp add: remote_only_def)
  have h2: "\<forall>p\<in>set [page_more]. edges p \<noteq> [] \<and> hasNextPage p"
    by (simp add: page_more_def)
  have h3: "edges page_last = [] \<or> \<not> hasNextPage page_last"
    by (simp add: page_last_def)
  have h4: "\<forall>node\<in>set (concat (map edges ([page_more] @ [page_last]))). author node \<noteq> None"
    by (simp add: page_more_def page_last_def demo_defs)
  have mine: "authored_by (owner_id demo_config) (concat (map edges ([page_more] @ [page_last]))) =
     [my_commit, my_commit]"
    by (simp add: authored_by_def page_more_def page_last_def demo_defs)
  have run: "process_loc_for_repo demo_digest demo_config ''o'' ''r'' [] [] None (0, 0, 0)
     (remote_only [History page_more, History page_last, No_Default_Branch]) =
   Returned (10, 4, 2)
     \<lparr>files = Map.empty, remote = [No_Default_Branch],
      queries = [\<lparr>q_owner = ''o'', q_repo_name = ''r'', q_cursor = None\<rparr>,
                 \<lparr>q_owner = ''o'', q_repo_name = ''r'', q_cursor = Some ''c1''\<rparr>]\<rparr>"
    using walk_counts_tracked_author_only [OF h1 h2 h3 h4, of demo_config demo_digest
        "''o''" "''r''" "[]" "[]" None 0 0 0]
    unfolding Let_def mine
    by (auto simp: remote_only_def my_commit_def page_more_def
          intro!: world.equality)
  with h1 h2 h3 mine show ?thesis
    by (simp add: page_more_def page_last_def demo_defs)
qed

text \<open>
  C4 (as stated, refuted). The remote serves a page without commits that signals more
  pages, and then a page with a commit of the tracked account. The walk returns after the
  first page with nothing counted and never asks for the second, although the signal says
  that more pages remain. With the same signal and the same cursor but a commit of
  another author on the first page, the walk does go on and counts the second page: the
  decision depends on the content of the page.
\<close>

theorem walk_stops_on_empty_page_counterexample:
  "hasNextPage page_empty \<and>
   process_loc_for_repo demo_digest demo_config ''o'' ''r'' [] [] None (0, 0, 0)
     (remote_only [History page_empty, History page_last]) =
   Returned (0, 0, 0)
     \<lparr>files = Map.empty, remote = [History page_last],
      queries = [\<lparr>q_owner = ''o'', q_repo_name = ''r'', q_cursor = None\<rparr>]\<rparr> \<and>
   hasNextPage page_others = hasNextPage page_empty \<and>
   endCursor page_others = endCursor page_empty \<and>
   process_loc_for_repo demo_digest demo_config ''o'' ''r'' [] [] None (0, 0, 0)
     (remote_only [History page_others, History page_last]) =
   Returned (5, 2, 1)
     \<lparr>files = Map.empty, remote = [],
      queries = [\<lparr>q_owner = ''o'', q_repo_name = ''r'', q_cursor = None\<rparr>,
                 \<lparr>q_owner = ''o'', q_repo_name = ''r'', q_cursor = Some ''c1''\<rparr>]\<rparr>"
  by (simp add: remote_only_def walk_step_world page_empty_def page_others_def page_last_def
        demo_defs)

text \<open>
  C4 (amended). After a page whose commits were counted, the walk asks for the next page,
  from the page's end cursor and with the totals counted so far, exactly when the page
  holds at least one commit and the remote signals that more pages remain; otherwise it
  returns the totals. Whose commits they are plays no part: a page without any commit of
  the tracked account leaves the totals as they were and, when it is not empty and more
  pages remain, the walk goes on.
\<close>

theorem walk_continues_iff_nonempty_and_more:
  assumes "remote w = History p # rest"
    and "count_commits (owner_id cfg) (edges p) totals = Inr acc"
  shows "process_loc_for_repo H cfg owner repo_name data cache_comment cursor totals w =
           (if edges p \<noteq> [] \<and> hasNextPage p
            then process_loc_for_repo H cfg owner repo_name data cache_comment (endCursor p) acc
                   (served \<lparr>q_owner = owner, q_repo_name = repo_name, q_cursor = cursor\<rparr> w)
            else Returned acc
                   (served \<lparr>q_owner = owner, q_repo_name = repo_name, q_cursor = cursor\<rparr> w)) \<and>
         (authored_by (owner_id cfg) (edges p) = [] \<longrightarrow> acc = totals)"
proof -
  obtain a d m where t: "totals = (a, d, m)" by (cases totals)
  obtain a' d' m' where t': "acc = (a', d', m')" by (cases acc)
  from count_commits_sums [OF assms(2) [unfolded t t']]
  have "authored_by (owner_id cfg) (edges p) = [] \<longrightarrow> acc = totals"
    by (simp add: t t')
  with assms show ?thesis by (simp add: walk_History)
qed

theorem walk_continues_iff_nonempty_and_more_witness:
  "remote (remote_only [History page_others, History page_last]) =
     History page_others # [History page_last] \<and>
   count_commits (owner_id demo_config) (edges page_others) (0, 0, 0) = Inr (0, 0, 0) \<and>
   authored_by (owner_id demo_config) (edges page_others) = [] \<and>
   process_loc_for_repo demo_digest demo_config ''o'' ''r'' [] [] None (0, 0, 0)
     (remote_only [History page_others, History page_last]) =
   process_loc_for_repo demo_digest demo_config ''o'' ''r'' [] [] (Some ''c1'') (0, 0, 0)
     (served \<lparr>q_owner = ''o'', q_repo_name = ''r'', q_cursor = None\<rparr>
        (remote_only [History page_others, History page_last]))"
proof -
  have h1: "remote (remote_only [History page_others, History page_last]) =
     History page_others # [History page_last]"
    by (simp add: remote_only_def)
  have h2: "count_commits (owner_id demo_config) (edges page_others) (0, 0, 0) = Inr (0, 0, 0)"
    by (simp add: page_others_def demo_defs)
  have h3: "authored_by (owner_id demo_config) (edges page_others) = []"
    by (simp add: authored_by_def page_others_def demo_defs)
  from walk_continues_iff_nonempty_and_more [OF h1 h2, of demo_digest "''o''" "''r''" "[]" "[]" None]
  show ?thesis using h1 h2 h3 by (simp add: page_others_def)
qed

section \<open>Properties of the reconciliation loop\<close>

lemma reconcile_repo_frame:
  assumes "reconcile_repo H cfg cc index node data w = Returned data' w'"
  shows "length data' = length data \<and> (\<forall>k. k \<noteq> index \<longrightarrow> data' ! k = data ! k)"
  using assms unfolding reconcile_repo_def
  by (auto split: if_splits list.splits option.splits outcome.splits)

lemma reconcile_frame:
  "reconcile H cfg cc ps data w = Returned data' w' \<Longrightarrow>
   length data' = length data \<and> (\<forall>k. k \<notin> fst ` set ps \<longrightarrow> data' ! k = data ! k)"
proof (induction ps arbitrary: data w)
  case Nil
  then show ?case by simp
next
  case (Cons p ps)
  obtain index node where p: "p = (index, node)" by (cases p)
  from Cons.prems p obtain data1 w1 where
    step: "reconcile_repo H cfg cc index node data w = Returned data1 w1" and
    rest: "reconcile H cfg cc ps data1 w1 = Returned data' w'"
    by (auto split: outcome.splits)
  from reconcile_repo_frame [OF step] Cons.IH [OF rest] p show ?case by auto
qed

text \<open>A loop that raises: the positions before went through, and the step that raised.\<close>

lemma reconcile_Raised:
  "reconcile H cfg cc ps data w = Raised e w' \<Longrightarrow>
   \<exists>pre index node post data1 w1.
     ps = pre @ (index, node) # post \<and>
     reconcile H cfg cc pre data w = Returned data1 w1 \<and>
     reconcile_repo H cfg cc index node data1 w1 = Raised e w'"
proof (induction ps arbitrary: data w)
  case Nil
  then show ?case by simp
next
  case (Cons p ps)
  obtain index node where p: "p = (index, node)" by (cases p)
  show ?case
  proof (cases "reconcile_repo H cfg cc index node data w")
    case (Returned data1 w1)
    with Cons.prems p have "reconcile H cfg cc ps data1 w1 = Raised e w'" by simp
    from Cons.IH [OF this] obtain pre i2 n2 post data2 w2 where
      "ps = pre @ (i2, n2) # post"
      "reconcile H cfg cc pre data1 w1 = Returned data2 w2"
      "reconcile_repo H cfg cc i2 n2 data2 w2 = Raised e w'"
      by blast
    with Returned p show ?thesis
      by (intro exI [of _ "(index, node) # pre"] exI [of _ i2] exI [of _ n2] exI [of _ post]
            exI [of _ data2] exI [of _ w2]) simp
  next
    case (Raised e1 w1)
    with Cons.prems p show ?thesis
      by (intro exI [of _ "[]"] exI [of _ index] exI [of _ node] exI [of _ ps]
            exI [of _ data] exI [of _ w]) simp
  next
    case Starved
    with Cons.prems p show ?thesis by simp
  qed
qed

lemma reconcile_repo_APIError:
  assumes "reconcile_repo H cfg cc index node data w = Raised APIError w'"
  shows "files w' = (files w)(get_cache_filename H ''cache'' (user_name cfg) \<mapsto> concat (cc @ data))"
  using assms unfolding reconcile_repo_def
  by (auto split: if_splits list.splits option.splits outcome.splits dest: walk_Raised_files)

lemma enumerate_split:
  assumes "enumerate 0 xs = pre @ (k, x) # post"
  shows "k < length xs \<and> pre = enumerate 0 (take k xs) \<and> x = xs ! k"
proof -
  have len: "length pre < length xs"
    using arg_cong [OF assms, of length] by simp
  have "enumerate 0 xs ! length pre = (k, x)" using assms by simp
  with len have k: "k = length pre" "x = xs ! length pre" by (auto simp: nth_enumerate_eq)
  have "pre = take (length pre) (enumerate 0 xs)" using assms by simp
  moreover have "take (length pre) (enumerate 0 xs) = enumerate 0 (take (length pre) xs)"
    using len by (simp add: enumerate_eq_zip take_zip min_def)
  ultimately show ?thesis using k len by simp
qed


lemma walk_Raised_APIError_remote:
  "process_loc_for_repo H cfg owner repo data cc cursor totals w = Raised APIError w' \<Longrightarrow>
   \<exists>pages. remote w = map History pages @ Status_Error # remote w'"
proof (induction "remote w" arbitrary: w cursor totals)
  case Nil
  then show ?case by (simp add: walk_Starved)
next
  case (Cons x rs)
  let ?w1 = "served \<lparr>q_owner = owner, q_repo_name = repo, q_cursor = cursor\<rparr> w"
  have rw: "remote w = x # rs" using Cons.hyps(2) by simp
  have rs: "rs = remote ?w1" using rw by simp
  note step = walk_step [OF rw, of H cfg owner repo data cc cursor totals]
  show ?case
  proof (cases x)
    case Status_Error
    with step Cons.prems rw show ?thesis
      by (intro exI [of _ "[]"]) (auto simp: Let_def)
  next
    case (History h)
    show ?thesis
    proof (cases "count_commits (owner_id cfg) (edges h) totals")
      case (Inl e')
      with step History Cons.prems show ?thesis by (simp add: Let_def)
    next
      case (Inr totals')
      with step History Cons.prems
      have "process_loc_for_repo H cfg owner repo data cc (endCursor h) totals' ?w1 =
            Raised APIError w'"
        by (simp add: Let_def split: if_splits)
      from Cons.hyps(1) [OF rs this] obtain pages where
        "remote ?w1 = map History pages @ Status_Error # remote w'" by blast
      with rw History show ?thesis
        by (intro exI [of _ "h # pages"]) simp
    qed
  qed (use step Cons.prems in \<open>auto simp: Let_def\<close>)
qed

lemma reconcile_repo_APIError_remote:
  assumes "reconcile_repo H cfg cc index node data w = Raised APIError w'"
  shows "\<exists>pages. remote w = map History pages @ Status_Error # remote w'"
  using assms unfolding reconcile_repo_def
  by (auto split: if_splits list.splits option.splits outcome.splits
        dest: walk_Raised_APIError_remote)

lemma sum_loc_error: "sum_loc ls totals = Inl e \<Longrightarrow> e = IndexError \<or> e = ValueError"
  by (induction ls totals rule: sum_loc.induct)
     (auto simp: Let_def split: if_splits option.splits)

lemma load_ledger_error:
  "load_ledger H self repos comment_size force_cache w = Raised e w' \<Longrightarrow> e = FileNotFoundError"
  by (auto simp: load_ledger_def Let_def split: if_splits option.splits prod.splits)

lemma load_ledger_not_Starved:
  "load_ledger H self repos comment_size force_cache w \<noteq> Starved"
  by (auto simp: load_ledger_def Let_def split: if_splits option.splits prod.splits)

lemma cache_file_CacheManager [simp]:
  "cache_file (CacheManager H user) = get_cache_filename H ''cache'' user"
  by (simp add: CacheManager_def)

text \<open>
  A failure that \<^verbatim>\<open>execute_query\<close> reports as \<^verbatim>\<open>APIError\<close> is saved before it is
  raised again: the walk that meets an error status, after any pages that made it go on,
  writes the comment lines and the record lines it was given to the ledger file of
  \<^verbatim>\<open>config.user_name\<close> and raises \<^verbatim>\<open>APIError\<close>.
\<close>

lemma walk_fails_then_saves:
  "remote w = map History pages @ Status_Error # rest \<Longrightarrow>
   \<forall>p\<in>set pages. edges p \<noteq> [] \<and> hasNextPage p \<Longrightarrow>
   count_commits (owner_id cfg) (concat (map edges pages)) totals = Inr acc \<Longrightarrow>
   \<exists>w'. process_loc_for_repo H cfg owner repo data cc cursor totals w = Raised APIError w' \<and>
        remote w' = rest \<and>
        files w' = (files w)(get_cache_filename H ''cache'' (user_name cfg) \<mapsto> concat (cc @ data))"
proof (induction pages arbitrary: w cursor totals)
  case Nil
  then show ?case by (auto simp: walk_Status_Error fun_upd_def)
next
  case (Cons p pages)
  let ?w1 = "served \<lparr>q_owner = owner, q_repo_name = repo, q_cursor = cursor\<rparr> w"
  from Cons.prems(3) obtain t1 where
    t1: "count_commits (owner_id cfg) (edges p) totals = Inr t1" and
    acc: "count_commits (owner_id cfg) (concat (map edges pages)) t1 = Inr acc"
    by (auto simp: count_commits_append split: sum.splits)
  have r1: "remote ?w1 = map History pages @ Status_Error # rest"
    using Cons.prems(1) by simp
  have "\<forall>p\<in>set pages. edges p \<noteq> [] \<and> hasNextPage p" using Cons.prems(2) by simp
  from Cons.IH [OF r1 this acc, of "endCursor p"] obtain w' where
    "process_loc_for_repo H cfg owner repo data cc (endCursor p) t1 ?w1 = Raised APIError w'"
    "remote w' = rest"
    "files w' = (files ?w1)(get_cache_filename H ''cache'' (user_name cfg) \<mapsto> concat (cc @ data))"
    by blast
  with Cons.prems(1,2) t1 show ?case
    by (auto simp: walk_History fun_upd_def)
qed

text \<open>
  A failure that \<^verbatim>\<open>requests.post\<close> or \<^verbatim>\<open>response.json()\<close> raises is not an
  \<^verbatim>\<open>APIError\<close>: it passes the handler, and the walk raises it with the files as they
  were.
\<close>

lemma walk_fails_without_save:
  "remote w = map History pages @ x # rest \<Longrightarrow>
   x = Transport_Failure \<or> x = Undecodable_Body \<Longrightarrow>
   \<forall>p\<in>set pages. edges p \<noteq> [] \<and> hasNextPage p \<Longrightarrow>
   count_commits (owner_id cfg) (concat (map edges pages)) totals = Inr acc \<Longrightarrow>
   \<exists>w'. process_loc_for_repo H cfg owner repo data cc cursor totals w =
          Raised (if x = Transport_Failure then RequestException else JSONDecodeError) w' \<and>
        remote w' = rest \<and> files w' = files w"
proof (induction pages arbitrary: w cursor totals)
  case Nil
  then show ?case by (auto simp: walk_Transport_Failure walk_Undecodable_Body)
next
  case (Cons p pages)
  let ?w1 = "served \<lparr>q_owner = owner, q_repo_name = repo, q_cursor = cursor\<rparr> w"
  from Cons.prems(4) obtain t1 where
    t1: "count_commits (owner_id cfg) (edges p) totals = Inr t1" and
    acc: "count_commits (owner_id cfg) (concat (map edges pages)) t1 = Inr acc"
    by (auto simp: count_commits_append split: sum.splits)
  have r1: "remote ?w1 = map History pages @ x # rest"
    using Cons.prems(1) by simp
  have "\<forall>p\<in>set pages. edges p \<noteq> [] \<and> hasNextPage p" using Cons.prems(3) by simp
  from Cons.IH [OF r1 Cons.prems(2) this acc, of "endCursor p"] obtain w' where
    "process_loc_for_repo H cfg owner repo data cc (endCursor p) t1 ?w1 =
       Raised (if x = Transport_Failure then RequestException else JSONDecodeError) w'"
    "remote w' = rest" "files w' = files ?w1"
    by auto
  with Cons.prems(1,3) t1 show ?case
    by (simp add: walk_History)
qed

text \<open>
  Every run of \<^verbatim>\<open>cache_builder\<close> that ends with \<^verbatim>\<open>APIError\<close>, for the manager the
  code builds (\<^verbatim>\<open>CacheManager(config.user_name)\<close>): the failure was raised by the walk for
  some repository \<open>k\<close>, on an error status served after any number of pages; the
  repositories before \<open>k\<close> had been reconciled, giving the record lines \<open>data_k\<close>; and
  the ledger file then holds the comment lines followed by exactly \<open>data_k\<close>.
\<close>

lemma api_error_leaves_ledger_saved:
  assumes "cache_builder H cfg (CacheManager H (user_name cfg)) repos comment_size force_cache
             loc_add loc_del w = Raised APIError w'"
  shows "\<exists>cached cache_comment data w1 k data_k w_k pages.
           load_ledger H (CacheManager H (user_name cfg)) repos comment_size force_cache w =
             Returned (cached, cache_comment, data) w1 \<and>
           k < length repos \<and>
           reconcile H cfg cache_comment (enumerate 0 (take k repos)) data w1 =
             Returned data_k w_k \<and>
           reconcile_repo H cfg cache_comment k (repos ! k) data_k w_k = Raised APIError w' \<and>
           remote w_k = map History pages @ Status_Error # remote w' \<and>
           files w' (cache_file (CacheManager H (user_name cfg))) =
             Some (concat (cache_comment @ data_k)) \<and>
           length data_k = length data \<and>
           (\<forall>j\<ge>k. data_k ! j = data ! j)"
proof -
  let ?self = "CacheManager H (user_name cfg)"
  from assms obtain cached cache_comment data w1 where
    load: "load_ledger H ?self repos comment_size force_cache w =
             Returned (cached, cache_comment, data) w1" and
    fin: "reconcile_ledger H cfg ?self repos loc_add loc_del cached cache_comment data w1 =
             Raised APIError w'"
    by (auto simp: cache_builder_def split: outcome.splits dest: load_ledger_error)
  from fin have loop: "reconcile H cfg cache_comment (enumerate 0 repos) data w1 =
      Raised APIError w'"
    by (auto simp: reconcile_ledger_def Let_def split: outcome.splits sum.splits
          dest: sum_loc_error)
  from reconcile_Raised [OF loop] obtain pre k node post data_k w_k where
    sp: "enumerate 0 repos = pre @ (k, node) # post" and
    pre: "reconcile H cfg cache_comment pre data w1 = Returned data_k w_k" and
    step: "reconcile_repo H cfg cache_comment k node data_k w_k = Raised APIError w'"
    by blast
  from enumerate_split [OF sp] have k: "k < length repos" "pre = enumerate 0 (take k repos)"
    "node = repos ! k" by simp_all
  from reconcile_repo_APIError_remote [OF step] obtain pages where
    pages: "remote w_k = map History pages @ Status_Error # remote w'" by blast
  have saved: "files w' (cache_file ?self) = Some (concat (cache_comment @ data_k))"
    using reconcile_repo_APIError [OF step] by simp
  have "map fst pre = [0..<k]"
    using k(1,2) by (simp add: min_def)
  then have "set (map fst pre) = {0..<k}" by simp
  then have "fst ` set pre = {0..<k}" by simp
  with reconcile_frame [OF pre] have frame: "length data_k = length data"
    "\<forall>j\<ge>k. data_k ! j = data ! j" by auto
  from load k pre step pages saved frame show ?thesis by blast
qed


lemmas text_defs = text_line_def newline_def is_space_def py_int_def nat_of_string_def
  is_digit_def digit_val_def str_int_def digit_char_def sentinel_record_def walked_record_def
  slice_to_def slice_from_def comment_line_def

lemmas ledger_defs = demo_manager_def CacheManager_def get_cache_filename_def demo_digest_def
  ledger_world_def demo_ledger_def repo_a_def repo_b_def repo_c_def

lemmas run_defs = cache_builder_def load_ledger_def flush_cache_def reconcile_ledger_def
  reconcile_repo_def write_file_def force_close_file_def enumerate_eq_zip

lemma demo_failure_run:
  "cache_builder demo_digest demo_config (CacheManager demo_digest (user_name demo_config))
     [repo_a, repo_b, repo_c] 1 False 0 0
     (ledger_world demo_ledger [History page_last, Status_Error]) =
   Raised APIError failure_world"
  by (simp add: run_defs ledger_defs text_defs demo_defs walk_step_world page_last_def
        str_nat.simps Let_def failure_world_def)

text \<open>
  C1. The ledger holds a comment line and the records of three repositories; the records of
  the first two are stale. The walk for the first repository goes through, and its record
  is replaced in memory. During the walk for the second, \<^verbatim>\<open>requests.post\<close> cannot reach
  the remote: the exception it raises is not an \<^verbatim>\<open>APIError\<close>, the handler that saves the
  ledger does not run, and the run ends with that exception while the ledger file still
  holds the lines it was found with; the record finalised for the first repository is lost.
  With an error status in place of the unreachable remote, the same run saves the ledger,
  the new record of the first repository included, before it raises \<^verbatim>\<open>APIError\<close>.
\<close>

theorem unreachable_remote_loses_finalised_record:
  "cache_builder demo_digest demo_config (CacheManager demo_digest (user_name demo_config))
     [repo_a, repo_b, repo_c] 1 False 0 0
     (ledger_world demo_ledger [History page_last, Transport_Failure]) =
   Raised RequestException unreached_world \<and>
   files unreached_world (cache_file (CacheManager demo_digest (user_name demo_config))) =
     Some (concat [text_line ''# ledger'', text_line ''a/o 2 1 10 2'',
                   text_line ''b/o 1 1 5 5'', text_line ''c/o 4 4 4 4'']) \<and>
   cache_builder demo_digest demo_config (CacheManager demo_digest (user_name demo_config))
     [repo_a, repo_b, repo_c] 1 False 0 0
     (ledger_world demo_ledger [History page_last, Status_Error]) =
   Raised APIError failure_world \<and>
   files failure_world (cache_file (CacheManager demo_digest (user_name demo_config))) =
     Some (concat [text_line ''# ledger'', text_line ''a/o 3 1 5 2'',
                   text_line ''b/o 1 1 5 5'', text_line ''c/o 4 4 4 4''])"
  by (simp add: run_defs ledger_defs text_defs demo_defs walk_step_world page_last_def
        str_nat.simps Let_def failure_world_def unreached_world_def)

section \<open>Records that reconciliation leaves alone\<close>

lemma reconcile_repo_mismatch:
  "index < length data \<Longrightarrow> py_split (data ! index) = repo_hash # commit_count # others \<Longrightarrow>
   repo_hash \<noteq> H (nameWithOwner node) \<Longrightarrow>
   reconcile_repo H cfg cc index node data w = Returned data w"
  by (simp add: reconcile_repo_def)

lemma reconcile_repo_fresh:
  "index < length data \<Longrightarrow> py_split (data ! index) = repo_hash # commit_count # others \<Longrightarrow>
   repo_hash = H (nameWithOwner node) \<Longrightarrow> defaultBranchRef node = Some live_total \<Longrightarrow>
   py_int commit_count = Some live_total \<Longrightarrow>
   reconcile_repo H cfg cc index node data w = Returned data w"
  by (simp add: reconcile_repo_def)

text \<open>
  When the step at position \<open>i\<close> does nothing as long as the line at \<open>i\<close> is \<open>l\<close>, the
  loop runs as if position \<open>i\<close> were not visited.
\<close>

lemma reconcile_skip:
  assumes noop: "\<And>d w. length d = n \<Longrightarrow> d ! i = l \<Longrightarrow>
                   reconcile_repo H cfg cc i nd d w = Returned d w"
    and nodes: "\<forall>(j, node)\<in>set ps. j = i \<longrightarrow> node = nd"
    and d: "length d = n" "d ! i = l"
  shows "reconcile H cfg cc ps d w =
         reconcile H cfg cc (filter (\<lambda>(j, node). j \<noteq> i) ps) d w"
  using nodes d
proof (induction ps arbitrary: d w)
  case Nil
  then show ?case by simp
next
  case (Cons p ps)
  obtain j node where p: "p = (j, node)" by (cases p)
  have nodes': "\<forall>(j, node)\<in>set ps. j = i \<longrightarrow> node = nd" using Cons.prems(1) by simp
  show ?case
  proof (cases "j = i")
    case True
    with Cons.prems p have "node = nd" by simp
    with True p noop [OF Cons.prems(2,3), of w] Cons.IH [OF nodes' Cons.prems(2,3), of w]
    show ?thesis by simp
  next
    case False
    show ?thesis
    proof (cases "reconcile_repo H cfg cc j node d w")
      case (Returned d1 w1)
      from reconcile_repo_frame [OF Returned] False Cons.prems(2,3)
      have "length d1 = n" "d1 ! i = l" by auto
      from Cons.IH [OF nodes' this, of w1] Returned p False show ?thesis by simp
    qed (use p False in simp_all)
  qed
qed

lemma reconcile_noop_position:
  assumes noop: "\<And>d w. length d = length data \<Longrightarrow> d ! i = data ! i \<Longrightarrow>
                   reconcile_repo H cfg cc i (repos ! i) d w = Returned d w"
  shows "reconcile H cfg cc (enumerate 0 repos) data w =
           reconcile H cfg cc (filter (\<lambda>(j, node). j \<noteq> i) (enumerate 0 repos)) data w"
    and "reconcile H cfg cc (enumerate 0 repos) data w = Returned data' w' \<Longrightarrow>
           length data' = length data \<and> data' ! i = data ! i"
proof -
  have nodes: "\<forall>(j, node)\<in>set (enumerate 0 repos). j = i \<longrightarrow> node = repos ! i"
    by (auto simp: in_set_enumerate_eq)
  show skip: "reconcile H cfg cc (enumerate 0 repos) data w =
           reconcile H cfg cc (filter (\<lambda>(j, node). j \<noteq> i) (enumerate 0 repos)) data w"
    by (rule reconcile_skip [OF noop nodes]) simp_all
  assume "reconcile H cfg cc (enumerate 0 repos) data w = Returned data' w'"
  with skip have "reconcile H cfg cc (filter (\<lambda>(j, node). j \<noteq> i) (enumerate 0 repos)) data w =
      Returned data' w'" by simp
  from reconcile_frame [OF this] show "length data' = length data \<and> data' ! i = data ! i"
    by auto
qed

lemma reconcile_ledger_noop_position:
  assumes noop: "\<And>d w. length d = length data \<Longrightarrow> d ! i = data ! i \<Longrightarrow>
                   reconcile_repo H cfg cc i (repos ! i) d w = Returned d w"
    and "reconcile_ledger H cfg self repos loc_add loc_del cached cc data w = Returned r w'"
  shows "\<exists>data'. files w' (cache_file self) = Some (concat (cc @ data')) \<and>
           length data' = length data \<and> data' ! i = data ! i"
proof -
  from assms(2) obtain data' w2 where
    loop: "reconcile H cfg cc (enumerate 0 repos) data w = Returned data' w2" and
    w': "w' = write_file (cache_file self) (cc @ data') w2"
    by (auto simp: reconcile_ledger_def Let_def split: outcome.splits sum.splits)
  from reconcile_noop_position(2) [OF noop loop] w' show ?thesis
    by (auto simp: write_file_def)
qed

text \<open>
  C9. \<open>data\<close> are the record lines with which the loop over the repositories starts.
  At a position \<open>i\<close> whose line starts with a hash other than the digest of the name of
  \<open>repos ! i\<close>, the step of the loop returns the records and the world as they are (no
  query is made, nothing is reset); the whole loop runs as the loop that never visits
  position \<open>i\<close>; the records it returns have the same line at \<open>i\<close>; and when the run
  goes on to save the ledger, the saved file holds that same line at \<open>i\<close>.
\<close>

theorem hash_mismatch_leaves_record_untouched:
  assumes "i < length repos" and "i < length data"
    and "py_split (data ! i) = repo_hash # commit_count # others"
    and "repo_hash \<noteq> H (nameWithOwner (repos ! i))"
  shows "reconcile_repo H cfg cache_comment i (repos ! i) data w = Returned data w \<and>
         reconcile H cfg cache_comment (enumerate 0 repos) data w =
           reconcile H cfg cache_comment (filter (\<lambda>(j, node). j \<noteq> i) (enumerate 0 repos))
             data w \<and>
         (\<forall>data' w'. reconcile H cfg cache_comment (enumerate 0 repos) data w = Returned data' w'
            \<longrightarrow> length data' = length data \<and> data' ! i = data ! i) \<and>
         (\<forall>r w'. reconcile_ledger H cfg self repos loc_add loc_del cached cache_comment data w =
                   Returned r w'
            \<longrightarrow> (\<exists>data'. files w' (cache_file self) = Some (concat (cache_comment @ data')) \<and>
                   length data' = length data \<and> data' ! i = data ! i))"
proof -
  have noop: "reconcile_repo H cfg cache_comment i (repos ! i) d v = Returned d v"
    if "length d = length data" "d ! i = data ! i" for d v
    using that assms by (intro reconcile_repo_mismatch [of _ _ repo_hash commit_count others]) simp_all
  show ?thesis
    using noop [of data w] reconcile_noop_position [of data i H cfg cache_comment repos, OF noop]
      reconcile_ledger_noop_position [of data i H cfg cache_comment repos, OF noop]
    by blast
qed

theorem hash_mismatch_leaves_record_untouched_witness:
  "(0::nat) < length [repo_b, repo_a, repo_c] \<and> (0::nat) < length (tl demo_ledger) \<and>
   py_split (tl demo_ledger ! 0) = ''a/o'' # ''2'' # [''1'', ''10'', ''2''] \<and>
   ''a/o'' \<noteq> demo_digest (nameWithOwner ([repo_b, repo_a, repo_c] ! 0)) \<and>
   reconcile_repo demo_digest demo_config [] 0 ([repo_b, repo_a, repo_c] ! 0) (tl demo_ledger)
     (remote_only [Status_Error]) = Returned (tl demo_ledger) (remote_only [Status_Error]) \<and>
   reconcile demo_digest demo_config [] (enumerate 0 [repo_b, repo_a, repo_c]) (tl demo_ledger)
     (remote_only [Status_Error]) =
   reconcile demo_digest demo_config []
     (filter (\<lambda>(j, node). j \<noteq> 0) (enumerate 0 [repo_b, repo_a, repo_c])) (tl demo_ledger)
     (remote_only [Status_Error])"
proof -
  have h1: "(0::nat) < length [repo_b, repo_a, repo_c]" by simp
  have h2: "(0::nat) < length (tl demo_ledger)" by (simp add: demo_ledger_def)
  have h3: "py_split (tl demo_ledger ! 0) = ''a/o'' # ''2'' # [''1'', ''10'', ''2'']"
    by (simp add: demo_ledger_def text_defs)
  have h4: "''a/o'' \<noteq> demo_digest (nameWithOwner ([repo_b, repo_a, repo_c] ! 0))"
    by (simp add: demo_digest_def repo_b_def)
  note t = hash_mismatch_leaves_record_untouched [where H = demo_digest and i = 0
      and repos = "[repo_b, repo_a, repo_c]" and data = "tl demo_ledger" and cfg = demo_config
      and cache_comment = "[]" and w = "remote_only [Status_Error]", OF h1 h2 h3 h4]
  from t [THEN conjunct1] t [THEN conjunct2, THEN conjunct1] h1 h2 h3 h4
  show ?thesis by (intro conjI)
qed

text \<open>
  C3. \<open>data\<close> are the record lines with which the loop over the repositories starts
  (the stored records, after the rebuild when there was one). At a position \<open>i\<close> whose
  line starts with the digest of the name of \<open>repos ! i\<close> and whose second field reads as
  the live commit total of \<open>repos ! i\<close>, the step of the loop returns the records and the
  world as they are, so the walker is not called and no query is made; the whole loop runs
  as the loop that never visits position \<open>i\<close>; the records it returns have the same line
  at \<open>i\<close>; and when the run goes on to save the ledger, the saved file holds that same
  line at \<open>i\<close>.
\<close>

theorem fresh_record_is_not_walked:
  assumes "i < length repos" and "i < length data"
    and "py_split (data ! i) = repo_hash # commit_count # others"
    and "repo_hash = H (nameWithOwner (repos ! i))"
    and "defaultBranchRef (repos ! i) = Some live_total"
    and "py_int commit_count = Some live_total"
  shows "reconcile_repo H cfg cache_comment i (repos ! i) data w = Returned data w \<and>
         reconcile H cfg cache_comment (enumerate 0 repos) data w =
           reconcile H cfg cache_comment (filter (\<lambda>(j, node). j \<noteq> i) (enumerate 0 repos))
             data w \<and>
         (\<forall>data' w'. reconcile H cfg cache_comment (enumerate 0 repos) data w = Returned data' w'
            \<longrightarrow> length data' = length data \<and> data' ! i = data ! i) \<and>
         (\<forall>r w'. reconcile_ledger H cfg self repos loc_add loc_del cached cache_comment data w =
                   Returned r w'
            \<longrightarrow> (\<exists>data'. files w' (cache_file self) = Some (concat (cache_comment @ data')) \<and>
                   length data' = length data \<and> data' ! i = data ! i))"
proof -
  have noop: "reconcile_repo H cfg cache_comment i (repos ! i) d v = Returned d v"
    if "length d = length data" "d ! i = data ! i" for d v
    using that assms
    by (intro reconcile_repo_fresh [of _ _ repo_hash commit_count others _ _ live_total]) simp_all
  show ?thesis
    using noop [of data w] reconcile_noop_position [of data i H cfg cache_comment repos, OF noop]
      reconcile_ledger_noop_position [of data i H cfg cache_comment repos, OF noop]
    by blast
qed

theorem fresh_record_is_not_walked_witness:
  "(2::nat) < length [repo_a, repo_b, repo_c] \<and> (2::nat) < length (tl demo_ledger) \<and>
   py_split (tl demo_ledger ! 2) = ''c/o'' # ''4'' # [''4'', ''4'', ''4''] \<and>
   ''c/o'' = demo_digest (nameWithOwner ([repo_a, repo_b, repo_c] ! 2)) \<and>
   defaultBranchRef ([repo_a, repo_b, repo_c] ! 2) = Some 4 \<and>
   py_int ''4'' = Some 4 \<and>
   reconcile_repo demo_digest demo_config [] 2 ([repo_a, repo_b, repo_c] ! 2) (tl demo_ledger)
     (remote_only [Status_Error]) = Returned (tl demo_ledger) (remote_only [Status_Error]) \<and>
   reconcile demo_digest demo_config [] (enumerate 0 [repo_a, repo_b, repo_c]) (tl demo_ledger)
     (remote_only [Status_Error]) =
   reconcile demo_digest demo_config []
     (filter (\<lambda>(j, node). j \<noteq> 2) (enumerate 0 [repo_a, repo_b, repo_c])) (tl demo_ledger)
     (remote_only [Status_Error])"
proof -
  have h1: "(2::nat) < length [repo_a, repo_b, repo_c]" by simp
  have h2: "(2::nat) < length (tl demo_ledger)" by (simp add: demo_ledger_def)
  have h3: "py_split (tl demo_ledger ! 2) = ''c/o'' # ''4'' # [''4'', ''4'', ''4'']"
    by (simp add: demo_ledger_def text_defs)
  have h4: "''c/o'' = demo_digest (nameWithOwner ([repo_a, repo_b, repo_c] ! 2))"
    by (simp add: demo_digest_def repo_c_def)
  have h5: "defaultBranchRef ([repo_a, repo_b, repo_c] ! 2) = Some 4"
    by (simp add: repo_c_def)
  have h6: "py_int ''4'' = Some 4" by (simp add: text_defs)
  note t = fresh_record_is_not_walked [where H = demo_digest and i = 2
      and repos = "[repo_a, repo_b, repo_c]" and data = "tl demo_ledger" and cfg = demo_config
      and cache_comment = "[]" and w = "remote_only [Status_Error]", OF h1 h2 h3 h4 h5 h6]
  from t [THEN conjunct1] t [THEN conjunct2, THEN conjunct1] h1 h2 h3 h4 h5 h6
  show ?thesis by (intro conjI)
qed

section \<open>Loading and rebuilding the ledger\<close>

lemma comment_line_shape:
  "\<exists>body. comment_line = body @ [newline] \<and> newline \<notin> set body"
  by (auto simp: comment_line_def newline_def)

lemma readlines_comment_lines:
  "readlines (concat (replicate n comment_line)) = replicate n comment_line"
proof (induction n)
  case 0
  show ?case by simp
next
  case (Suc n)
  obtain body where b: "comment_line = body @ [newline]" "newline \<notin> set body"
    using comment_line_shape by blast
  have "readlines (concat (replicate (Suc n) comment_line)) =
        readlines (body @ newline # concat (replicate n comment_line))"
    by (simp add: b(1))
  also have "\<dots> = comment_line # readlines (concat (replicate n comment_line))"
    using b by (simp add: readlines_line)
  finally show ?case using Suc by simp
qed

lemma replicate_if_pos:
  "(if 0 < (n::int) then replicate (nat n) x else []) = replicate (nat n) x"
  by simp

text \<open>What the first part of \<^verbatim>\<open>cache_builder\<close> does, in terms of the lines found.\<close>

lemma load_ledger_rebuild:
  assumes "int (length (ledger_lines self comment_size w)) - comment_size \<noteq> int (length repos)
           \<or> force_cache"
  shows "load_ledger H self repos comment_size force_cache w =
     (let content = concat (take (nat comment_size) (ledger_lines self comment_size w) @
                      map (\<lambda>node. sentinel_record (H (nameWithOwner node))) repos)
      in Returned (False, slice_to (readlines content) comment_size,
                   slice_from (readlines content) comment_size)
           (w\<lparr>files := (files w)(cache_file self \<mapsto> content)\<rparr>))"
proof (cases "files w (cache_file self)")
  case None
  with assms show ?thesis
    by (auto simp: load_ledger_def flush_cache_def write_file_def ledger_lines_def Let_def
          readlines_comment_lines slice_to_def)
next
  case (Some content)
  with assms show ?thesis
    by (auto simp: load_ledger_def flush_cache_def write_file_def ledger_lines_def Let_def
          slice_to_def)
qed

lemma load_ledger_keep:
  assumes "\<not> (int (length (ledger_lines self comment_size w)) - comment_size \<noteq> int (length repos)
           \<or> force_cache)"
  shows "\<exists>w1. load_ledger H self repos comment_size force_cache w =
           Returned (True, slice_to (ledger_lines self comment_size w) comment_size,
                     slice_from (ledger_lines self comment_size w) comment_size) w1 \<and>
           files w1 (cache_file self) = Some (concat (ledger_lines self comment_size w)) \<and>
           remote w1 = remote w \<and> queries w1 = queries w"
proof (cases "files w (cache_file self)")
  case None
  with assms show ?thesis
    by (simp add: load_ledger_def write_file_def ledger_lines_def Let_def replicate_if_pos
          del: replicate_eq_replicate)
next
  case (Some content)
  with assms show ?thesis
    by (auto simp: load_ledger_def ledger_lines_def Let_def concat_readlines)
qed

lemma lines_ok_ledger_lines: "lines_ok (ledger_lines self comment_size w)"
proof (cases "files w (cache_file self)")
  case None
  have "replicate (nat comment_size) comment_line =
        readlines (concat (replicate (nat comment_size) comment_line))"
    by (simp add: readlines_comment_lines)
  then have "lines_ok (replicate (nat comment_size) comment_line)"
    by (metis lines_ok_readlines)
  with None show ?thesis by (simp add: ledger_lines_def)
next
  case (Some content)
  then show ?thesis by (simp add: ledger_lines_def lines_ok_readlines)
qed

text \<open>
  After a rebuild over a header of complete lines, what is read back is the header and
  the sentinel records.
\<close>

lemma rebuilt_ledger_read_back:
  assumes cs: "0 \<le> comment_size" "nat comment_size \<le> length (ledger_lines self comment_size w)"
    and hdr: "\<forall>l\<in>set (take (nat comment_size) (ledger_lines self comment_size w)). last l = newline"
    and H: "\<forall>node\<in>set repos. newline \<notin> set (H (nameWithOwner node))"
  shows "readlines
           (concat (take (nat comment_size) (ledger_lines self comment_size w)) @
            concat (map (\<lambda>node. H (nameWithOwner node) @ '' 0 0 0 0'' @ [newline]) repos)) =
         take (nat comment_size) (ledger_lines self comment_size w) @
         map (\<lambda>node. H (nameWithOwner node) @ '' 0 0 0 0'' @ [newline]) repos"
proof -
  let ?hdr = "take (nat comment_size) (ledger_lines self comment_size w)"
  let ?sen = "map (\<lambda>node. H (nameWithOwner node) @ '' 0 0 0 0'' @ [newline]) repos"
  have "complete_line l" if "l \<in> set ?hdr" for l
  proof -
    from that have "l \<in> set (ledger_lines self comment_size w)" by (rule in_set_takeD)
    from lines_ok_mem [OF lines_ok_ledger_lines this] hdr that show ?thesis
      by (simp add: complete_line_def)
  qed
  moreover have "complete_line l" if "l \<in> set ?sen" for l
    using that H complete_sentinel_record by (auto simp: sentinel_record_def)
  ultimately have "lines_ok (?hdr @ ?sen)"
    by (intro all_complete_lines_ok) auto
  from readlines_concat [OF this] show ?thesis by simp
qed

text \<open>
  C2. \<open>ledger_lines\<close> are the lines of the ledger as the run finds it (those of the
  placeholder header it has just written, when there was no file). When their number minus
  the header size differs from the number of repositories, or the rebuild is forced, the
  first part of \<^verbatim>\<open>cache_builder\<close> leaves the ledger file holding the first
  \<open>comment_size\<close> lines found, followed by one sentinel record
  \<^verbatim>\<open><hash> 0 0 0 0\<close> for each repository, in the order of the list, and nothing else;
  no query has been made by then; the flag is false; and the rest of \<^verbatim>\<open>cache_builder\<close>,
  the reconciliation, runs on what is read back from that file. When the header size is not
  negative, the ledger found has at least that many lines, each of them ended by its line
  end, and the digests hold no line end, what is read back is that header as the comment
  lines and the sentinel records as the record lines.
\<close>

theorem rebuild_writes_sentinels:
  assumes "int (length (ledger_lines self comment_size w)) - comment_size \<noteq> int (length repos)
           \<or> force_cache"
  shows "let header = take (nat comment_size) (ledger_lines self comment_size w);
             sentinels = map (\<lambda>node. H (nameWithOwner node) @ '' 0 0 0 0'' @ [newline]) repos;
             content = concat header @ concat sentinels;
             cache_comment = slice_to (readlines content) comment_size;
             data = slice_from (readlines content) comment_size
         in (\<exists>w1.
               load_ledger H self repos comment_size force_cache w =
                 Returned (False, cache_comment, data) w1 \<and>
               files w1 (cache_file self) = Some content \<and>
               remote w1 = remote w \<and> queries w1 = queries w \<and>
               cache_builder H cfg self repos comment_size force_cache loc_add loc_del w =
                 reconcile_ledger H cfg self repos loc_add loc_del False cache_comment data w1) \<and>
            (0 \<le> comment_size \<and> nat comment_size \<le> length (ledger_lines self comment_size w) \<and>
             (\<forall>l\<in>set header. last l = newline) \<and>
             (\<forall>node\<in>set repos. newline \<notin> set (H (nameWithOwner node)))
             \<longrightarrow> cache_comment = header \<and> data = sentinels)"
proof -
  let ?header = "take (nat comment_size) (ledger_lines self comment_size w)"
  let ?sentinels = "map (\<lambda>node. H (nameWithOwner node) @ '' 0 0 0 0'' @ [newline]) repos"
  let ?content = "concat ?header @ concat ?sentinels"
  have first: "\<exists>w1.
      load_ledger H self repos comment_size force_cache w =
        Returned (False, slice_to (readlines ?content) comment_size,
                  slice_from (readlines ?content) comment_size) w1 \<and>
      files w1 (cache_file self) = Some ?content \<and>
      remote w1 = remote w \<and> queries w1 = queries w \<and>
      cache_builder H cfg self repos comment_size force_cache loc_add loc_del w =
        reconcile_ledger H cfg self repos loc_add loc_del False
          (slice_to (readlines ?content) comment_size)
          (slice_from (readlines ?content) comment_size) w1"
    using load_ledger_rebuild [OF assms, of H]
    by (simp add: Let_def cache_builder_def sentinel_record_def)
  have second: "slice_to (readlines ?content) comment_size = ?header \<and>
      slice_from (readlines ?content) comment_size = ?sentinels"
    if "0 \<le> comment_size \<and> nat comment_size \<le> length (ledger_lines self comment_size w) \<and>
        (\<forall>l\<in>set ?header. last l = newline) \<and>
        (\<forall>node\<in>set repos. newline \<notin> set (H (nameWithOwner node)))"
  proof -
    from that have "readlines ?content = ?header @ ?sentinels"
      by (intro rebuilt_ledger_read_back) simp_all
    moreover from that have "length ?header = nat comment_size" by simp
    ultimately show ?thesis using that by (simp add: slice_to_def slice_from_def)
  qed
  from first second show ?thesis unfolding Let_def by blast
qed

lemma demo_rebuild_lines:
  "ledger_lines demo_manager 1 (ledger_world demo_ledger []) = demo_ledger"
  by (simp add: ledger_lines_def ledger_world_def demo_ledger_def text_line_def newline_def)

theorem rebuild_writes_sentinels_witness:
  "int (length (ledger_lines demo_manager 1 (ledger_world demo_ledger []))) - 1 \<noteq>
     int (length [repo_a, repo_b]) \<and>
   (\<exists>w1. load_ledger demo_digest demo_manager [repo_a, repo_b] 1 False
            (ledger_world demo_ledger []) =
          Returned (False, [text_line ''# ledger''],
                    [text_line ''a/o 0 0 0 0'', text_line ''b/o 0 0 0 0'']) w1 \<and>
          files w1 (cache_file demo_manager) =
            Some (concat [text_line ''# ledger'', text_line ''a/o 0 0 0 0'',
                          text_line ''b/o 0 0 0 0'']) \<and>
          remote w1 = [] \<and> queries w1 = [])"
proof -
  have h0: "int (length (ledger_lines demo_manager 1 (ledger_world demo_ledger []))) - 1 \<noteq>
     int (length [repo_a, repo_b])"
    unfolding demo_rebuild_lines by (simp add: demo_ledger_def)
  then have h: "int (length (ledger_lines demo_manager 1 (ledger_world demo_ledger []))) - 1 \<noteq>
     int (length [repo_a, repo_b]) \<or> False" by simp
  note t = rebuild_writes_sentinels [OF h, of demo_digest demo_config 0 0,
      unfolded demo_rebuild_lines Let_def, THEN conjunct1]
  from t have "\<exists>w1. load_ledger demo_digest demo_manager [repo_a, repo_b] 1 False
            (ledger_world demo_ledger []) =
          Returned (False, [text_line ''# ledger''],
                    [text_line ''a/o 0 0 0 0'', text_line ''b/o 0 0 0 0'']) w1 \<and>
          files w1 (cache_file demo_manager) =
            Some (concat [text_line ''# ledger'', text_line ''a/o 0 0 0 0'',
                          text_line ''b/o 0 0 0 0'']) \<and>
          remote w1 = [] \<and> queries w1 = []"
    by (auto simp: Let_def demo_ledger_def text_line_def newline_def
          demo_digest_def repo_a_def repo_b_def slice_to_def slice_from_def ledger_world_def)
  with h0 show ?thesis by (intro conjI)
qed

text \<open>
  C5 (as stated, refuted). The ledger has one record for each of the three repositories,
  so it is not rebuilt; the records of the first two are stale, and both repositories are
  walked (two queries are made and both records are replaced). The flag returned is true.
\<close>

theorem cached_flag_true_after_walks_counterexample:
  "cache_builder demo_digest demo_config demo_manager [repo_a, repo_b, repo_c] 1 False 0 0
     (ledger_world demo_ledger [History page_last, History page_last]) =
   Returned (14, 8, 6, True) rewalked_world \<and>
   queries rewalked_world =
     [\<lparr>q_owner = ''o'', q_repo_name = ''a'', q_cursor = None\<rparr>,
      \<lparr>q_owner = ''o'', q_repo_name = ''b'', q_cursor = None\<rparr>]"
  by (simp add: run_defs ledger_defs text_defs demo_defs walk_step_world page_last_def
        str_nat.simps Let_def rewalked_world_def)

text \<open>
  C5 (amended). Whenever \<^verbatim>\<open>cache_builder\<close> returns, the flag it returns is true exactly
  when the ledger was not rebuilt in this run: the number of lines found after the header
  equals the number of repositories and no rebuild was forced. Whether repositories were
  walked plays no part.
\<close>

theorem cached_flag_iff_no_rebuild:
  assumes "cache_builder H cfg self repos comment_size force_cache loc_add loc_del w =
           Returned (la, ld, net, cached) w'"
  shows "cached \<longleftrightarrow>
           int (length (ledger_lines self comment_size w)) - comment_size = int (length repos) \<and>
           \<not> force_cache"
proof (cases "int (length (ledger_lines self comment_size w)) - comment_size \<noteq> int (length repos)
           \<or> force_cache")
  case True
  from load_ledger_rebuild [OF True, of H] assms have "\<not> cached"
    by (auto simp: cache_builder_def reconcile_ledger_def Let_def
          split: outcome.splits sum.splits)
  with True show ?thesis by auto
next
  case False
  from load_ledger_keep [OF False, of H] assms have cached
    by (auto simp: cache_builder_def reconcile_ledger_def Let_def
          split: outcome.splits sum.splits)
  with False show ?thesis by auto
qed

theorem cached_flag_iff_no_rebuild_witness:
  "cache_builder demo_digest demo_config demo_manager [repo_a, repo_b, repo_c] 1 False 0 0
     (ledger_world demo_ledger [History page_last, History page_last]) =
   Returned (14, 8, 6, True) rewalked_world \<and>
   (True \<longleftrightarrow>
      int (length (ledger_lines demo_manager 1
             (ledger_world demo_ledger [History page_last, History page_last]))) - 1 =
      int (length [repo_a, repo_b, repo_c]) \<and> \<not> False)"
proof -
  have run: "cache_builder demo_digest demo_config demo_manager [repo_a, repo_b, repo_c] 1 False
     0 0 (ledger_world demo_ledger [History page_last, History page_last]) =
     Returned (14, 8, 6, True) rewalked_world"
    by (simp add: run_defs ledger_defs text_defs demo_defs walk_step_world page_last_def
        str_nat.simps Let_def rewalked_world_def)
  from cached_flag_iff_no_rebuild [OF run] run show ?thesis by (intro conjI)
qed

section \<open>Lines written are the lines read back\<close>

lemma reconcile_repo_change:
  assumes "reconcile_repo H cfg cc index node data w = Returned data' w'"
  shows "data' = data \<or>
         (index < length data \<and> (\<exists>l. complete_line l \<and> data' = data[index := l]))"
proof -
  have tok: "newline \<notin> set h" if "py_split (data ! index) = h # rest" for h rest
  proof -
    from that have "h \<in> set (py_split (data ! index))" by simp
    from py_split_tokens [OF this] show ?thesis by auto
  qed
  from assms show ?thesis
    unfolding reconcile_repo_def
    by (auto split: if_splits list.splits option.splits outcome.splits
          intro!: complete_sentinel_record complete_walked_record dest: tok)
qed

lemma reconcile_repo_lines_ok:
  assumes "reconcile_repo H cfg cc index node data w = Returned data' w'"
    and "lines_ok (pre @ data)"
  shows "lines_ok (pre @ data')"
proof -
  from reconcile_repo_change [OF assms(1)] show ?thesis
  proof
    assume "data' = data"
    with assms(2) show ?thesis by simp
  next
    assume "index < length data \<and> (\<exists>l. complete_line l \<and> data' = data[index := l])"
    then obtain l where l: "index < length data" "complete_line l" "data' = data[index := l]"
      by blast
    have "pre @ data' = (pre @ data)[length pre + index := l]"
      using l by (simp add: list_update_append)
    with lines_ok_update [OF assms(2), of "length pre + index" l] l show ?thesis by simp
  qed
qed

lemma reconcile_lines_ok:
  "reconcile H cfg cc ps data w = Returned data' w' \<Longrightarrow> lines_ok (pre @ data) \<Longrightarrow>
   lines_ok (pre @ data')"
proof (induction ps arbitrary: data w)
  case Nil
  then show ?case by simp
next
  case (Cons p ps)
  obtain index node where p: "p = (index, node)" by (cases p)
  from Cons.prems p obtain data1 w1 where
    step: "reconcile_repo H cfg cc index node data w = Returned data1 w1" and
    rest: "reconcile H cfg cc ps data1 w1 = Returned data' w'"
    by (auto split: outcome.splits)
  from Cons.IH [OF rest reconcile_repo_lines_ok [OF step Cons.prems(2)]] show ?case .
qed

text \<open>What is loaded is what \<^verbatim>\<open>readlines\<close> gives for some text, split at the header size.\<close>

lemma load_ledger_lines:
  assumes "load_ledger H self repos comment_size force_cache w = Returned (cached, cc, data) w1"
  shows "\<exists>content. cc = slice_to (readlines content) comment_size \<and>
           data = slice_from (readlines content) comment_size"
proof (cases "int (length (ledger_lines self comment_size w)) - comment_size \<noteq> int (length repos)
           \<or> force_cache")
  case True
  from load_ledger_rebuild [OF True, of H] assms show ?thesis
    by (auto simp: Let_def)
next
  case False
  obtain content where c: "ledger_lines self comment_size w = readlines content"
  proof (cases "files w (cache_file self)")
    case None
    then have "ledger_lines self comment_size w =
        readlines (concat (replicate (nat comment_size) comment_line))"
      by (simp add: ledger_lines_def readlines_comment_lines)
    then show ?thesis by (rule that)
  next
    case (Some x)
    then have "ledger_lines self comment_size w = readlines x"
      by (simp add: ledger_lines_def)
    then show ?thesis by (rule that)
  qed
  from load_ledger_keep [OF False, of H] assms
  have "cc = slice_to (ledger_lines self comment_size w) comment_size"
    "data = slice_from (ledger_lines self comment_size w) comment_size"
    by auto
  then show ?thesis unfolding c by (intro exI [of _ content] conjI)
qed

lemma sum_loc_Cons:
  assumes "sum_loc (line # ls) (la0, ld0) = Inr r"
  shows "\<exists>a d. loc_fields line = Some (a, d) \<and> sum_loc ls (la0 + a, ld0 + d) = Inr r"
proof -
  from assms have len: "4 < length (py_split line)"
    by (simp add: Let_def not_le split: if_splits option.splits)
  from five_fields [OF len] obtain h c m a d others where
    sp: "py_split line = h # c # m # a # d # others" by blast
  from assms sp show ?thesis
    by (simp add: Let_def loc_fields_def split: option.splits)
qed

lemma sum_loc_fields:
  "sum_loc ls (la0, ld0) = Inr (la, ld) \<Longrightarrow>
   \<exists>fs. map loc_fields ls = map Some fs \<and>
        la = la0 + sum_list (map fst fs) \<and> ld = ld0 + sum_list (map snd fs)"
proof (induction ls arbitrary: la0 ld0)
  case Nil
  then show ?case by simp
next
  case (Cons line ls)
  from sum_loc_Cons [OF Cons.prems] obtain a d where
    f: "loc_fields line = Some (a, d)" and
    rest: "sum_loc ls (la0 + a, ld0 + d) = Inr (la, ld)"
    by blast
  from Cons.IH [OF rest] obtain fs where
    "map loc_fields ls = map Some fs" "la = la0 + a + sum_list (map fst fs)"
    "ld = ld0 + d + sum_list (map snd fs)" by blast
  with f show ?case by (intro exI [of _ "(a, d) # fs"]) simp
qed


text \<open>
  C8. Whenever \<^verbatim>\<open>cache_builder\<close> returns, the ledger file holds a text whose lines after
  the header (\<^verbatim>\<open>readlines()[comment_size:]\<close>, the record lines as the code itself reads
  them) all have an additions and a deletions field, and the first two elements returned
  are the offsets given by the caller plus the sums of those fields over all these lines;
  the third element is the first minus the second. Nothing in this depends on which
  records were walked in the run.
\<close>

theorem aggregate_is_sum_over_final_ledger:
  assumes "cache_builder H cfg self repos comment_size force_cache loc_add loc_del w =
           Returned (la, ld, net, cached) w'"
  shows "\<exists>content fs.
           files w' (cache_file self) = Some content \<and>
           map loc_fields (slice_from (readlines content) comment_size) = map Some fs \<and>
           la = loc_add + sum_list (map fst fs) \<and>
           ld = loc_del + sum_list (map snd fs) \<and>
           net = la - ld"
proof -
  from assms obtain c cc data w1 where
    load: "load_ledger H self repos comment_size force_cache w = Returned (c, cc, data) w1" and
    fin: "reconcile_ledger H cfg self repos loc_add loc_del c cc data w1 =
            Returned (la, ld, net, cached) w'"
    by (auto simp: cache_builder_def split: outcome.splits)
  from fin obtain data' w2 where
    loop: "reconcile H cfg cc (enumerate 0 repos) data w1 = Returned data' w2" and
    w': "w' = write_file (cache_file self) (cc @ data') w2" and
    sums: "sum_loc data' (loc_add, loc_del) = Inr (la, ld)" and
    net: "net = la - ld"
    by (auto simp: reconcile_ledger_def Let_def split: outcome.splits sum.splits)
  from load_ledger_lines [OF load] obtain c0 where
    cc: "cc = slice_to (readlines c0) comment_size" and
    data: "data = slice_from (readlines c0) comment_size"
    by blast
  have "lines_ok (cc @ data)" by (simp add: cc data lines_ok_readlines)
  from reconcile_lines_ok [OF loop this] have "lines_ok (cc @ data')" .
  then have reread: "readlines (concat (cc @ data')) = cc @ data'" by (rule readlines_concat)
  from reconcile_frame [OF loop] have "length data' = length (slice_from (readlines c0) comment_size)"
    by (simp add: data)
  from slice_from_same_length [OF this]
  have "slice_from (cc @ data') comment_size = data'"
    by (simp only: cc)
  then have records: "slice_from (readlines (concat (cc @ data'))) comment_size = data'"
    by (simp only: reread)
  from sum_loc_fields [OF sums] obtain fs where
    fs: "map loc_fields data' = map Some fs" "la = loc_add + sum_list (map fst fs)"
    "ld = loc_del + sum_list (map snd fs)" by blast
  have saved: "files w' (cache_file self) = Some (concat (cc @ data'))"
    by (simp add: w' write_file_def)
  from saved fs net show ?thesis
    by (intro exI [of _ "concat (cc @ data')"] exI [of _ fs]) (simp only: records simp_thms)
qed

lemma demo_rewalk_run:
  "cache_builder demo_digest demo_config demo_manager [repo_a, repo_b, repo_c] 1 False 10 20
     (ledger_world demo_ledger [History page_last, History page_last]) =
   Returned (24, 28, - 4, True) rewalked_world"
  by (simp add: run_defs ledger_defs text_defs demo_defs walk_step_world page_last_def
        str_nat.simps Let_def rewalked_world_def)

theorem aggregate_is_sum_over_final_ledger_witness:
  "cache_builder demo_digest demo_config demo_manager [repo_a, repo_b, repo_c] 1 False 10 20
     (ledger_world demo_ledger [History page_last, History page_last]) =
   Returned (24, 28, - 4, True) rewalked_world \<and>
   (\<exists>content fs.
      files rewalked_world (cache_file demo_manager) = Some content \<and>
      map loc_fields (slice_from (readlines content) 1) = map Some fs \<and>
      (24::int) = 10 + sum_list (map fst fs) \<and>
      (28::int) = 20 + sum_list (map snd fs) \<and>
      (- 4::int) = 24 - 28)"
  by (rule conjI [OF demo_rewalk_run aggregate_is_sum_over_final_ledger [OF demo_rewalk_run]])

section \<open>Properties of the archive merge\<close>

lemma archive_records_error:
  "archive_records ls totals = Inl e \<Longrightarrow> e = IndexError \<or> e = ValueError"
proof (induction ls arbitrary: totals)
  case Nil
  then show ?case by (cases totals) simp
next
  case (Cons line rest)
  obtain al dl ac where t: "totals = (al, dl, ac)" by (cases totals)
  show ?case
  proof (cases "archive_records (line # rest) totals = Inl IndexError \<or>
                archive_records (line # rest) totals = Inl ValueError")
    case True
    with Cons.prems show ?thesis by auto
  next
    case False
    with Cons.prems obtain totals' where "archive_records rest totals' = Inl e"
      unfolding t by (simp split: list.splits option.splits if_splits)
    from Cons.IH [OF this] show ?thesis .
  qed
qed

lemma archive_trailer_error:
  "archive_trailer old_data = Inl e \<Longrightarrow> e = IndexError \<or> e = ValueError"
  by (simp add: archive_trailer_def Let_def split: if_splits option.splits)

lemma add_archive_body_error:
  "add_archive_body w = Inl e \<Longrightarrow> e = FileNotFoundError \<or> e = IndexError \<or> e = ValueError"
  by (auto simp: add_archive_body_def Let_def split: option.splits sum.splits prod.splits
        dest: archive_records_error archive_trailer_error)

text \<open>
  The ways \<^verbatim>\<open>add_archive\<close> ends: it changes nothing, and returns, or raises
  \<^verbatim>\<open>ValueError\<close>. Without the archive file the result is all zero. With a file whose
  record lines go through, a missing last line or a trailer of fewer than five fields gives
  the all-zero result as well.
\<close>

lemma add_archive_outcomes:
  "((\<exists>r. add_archive w = Returned r w) \<or> add_archive w = Raised ValueError w) \<and>
   (files w archive_path = None \<longrightarrow> add_archive w = Returned (0, 0, 0, 0, 0) w) \<and>
   (\<forall>content totals.
      files w archive_path = Some content \<and>
      archive_records
        (take (length (readlines content) - 3 - 7) (drop 7 (readlines content))) (0, 0, 0) =
        Inr totals \<and>
      (readlines content = [] \<or> length (py_split (last (readlines content))) < 5)
      \<longrightarrow> add_archive w = Returned (0, 0, 0, 0, 0) w)"
proof (intro conjI allI impI)
  show "(\<exists>r. add_archive w = Returned r w) \<or> add_archive w = Raised ValueError w"
    using add_archive_body_error [of w]
    by (cases "add_archive_body w") (auto simp: add_archive_def)
next
  assume "files w archive_path = None"
  then show "add_archive w = Returned (0, 0, 0, 0, 0) w"
    by (simp add: add_archive_def add_archive_body_def)
next
  fix content totals
  assume a: "files w archive_path = Some content \<and>
      archive_records
        (take (length (readlines content) - 3 - 7) (drop 7 (readlines content))) (0, 0, 0) =
        Inr totals \<and>
      (readlines content = [] \<or> length (py_split (last (readlines content))) < 5)"
  then have "archive_trailer (readlines content) = Inl IndexError"
    by (auto simp: archive_trailer_def Let_def)
  with a show "add_archive w = Returned (0, 0, 0, 0, 0) w"
    by (auto simp: add_archive_def add_archive_body_def Let_def split: prod.splits)
qed

text \<open>
  C6. The archive file is a single line of five fields, the last of which is a word: a
  malformed trailer. \<^verbatim>\<open>int\<close> fails on the fifth field without its last character, and
  the \<^verbatim>\<open>ValueError\<close> leaves \<^verbatim>\<open>add_archive\<close>, whose handler catches
  \<^verbatim>\<open>FileNotFoundError\<close> and \<^verbatim>\<open>IndexError\<close> only: the call raises where the all-zero
  result was to be returned. A trailer that is malformed by having three fields raises
  \<^verbatim>\<open>IndexError\<close> at the same expression, and there the handler gives the all-zero
  result.
\<close>

theorem add_archive_malformed_trailer_raises:
  "add_archive (archive_world [text_line ''repos 2 commits in total'']) =
     Raised ValueError (archive_world [text_line ''repos 2 commits in total'']) \<and>
   add_archive (archive_world [text_line ''repos 2 commits'']) =
     Returned (0, 0, 0, 0, 0) (archive_world [text_line ''repos 2 commits''])"
  by (simp add: add_archive_def add_archive_body_def archive_trailer_def archive_world_def
        archive_path_def text_defs Let_def)

end
